theory Spec2Isabelle
  imports Main
begin

section \<open>The text buffer and its iterators\<close>

text \<open>
  The engine of \<^verbatim>\<open>src/source.cc\<close> works on a \<^verbatim>\<open>Gtk::TextBuffer\<close> through
  \<^verbatim>\<open>Gtk::TextIter\<close> cursors. A buffer is the list of its lines, each line without
  its terminator; an iterator is a pair (line, line offset), which is how GTK addresses
  text. Characters are 8-bit characters, and the only line terminator is the newline:
  documents with carriage returns or Unicode paragraph separators are outside the model.
  A buffer always has at least one line, and no line contains a newline.
\<close>

type_synonym buffer = "string list"
type_synonym iter = "nat \<times> nat"

abbreviation NL :: char where "NL \<equiv> CHR 0x0A"
abbreviation TAB :: char where "TAB \<equiv> CHR 0x09"
abbreviation SPACE :: char where "SPACE \<equiv> CHR 0x20"
abbreviation NUL :: char where "NUL \<equiv> CHR 0x00"
abbreviation QUOTE :: char where "QUOTE \<equiv> CHR 0x27"
abbreviation DQUOTE :: char where "DQUOTE \<equiv> CHR 0x22"
abbreviation BACKSLASH :: char where "BACKSLASH \<equiv> CHR 0x5C"

definition wf_buffer :: "buffer \<Rightarrow> bool" where
  "wf_buffer b = (b \<noteq> [] \<and> list_all (\<lambda>l. NL \<notin> set l) b)"

definition valid_iter :: "buffer \<Rightarrow> iter \<Rightarrow> bool" where
  "valid_iter b it = (fst it < length b \<and> snd it \<le> length (b ! fst it))"

definition get_line_count :: "buffer \<Rightarrow> nat" where
  "get_line_count b = length b"

definition get_line :: "iter \<Rightarrow> nat" where
  "get_line it = fst it"

definition get_line_offset :: "iter \<Rightarrow> nat" where
  "get_line_offset it = snd it"

text \<open>\<^verbatim>\<open>buffer->begin()\<close> and \<^verbatim>\<open>buffer->end()\<close>.\<close>

definition buffer_begin :: iter where
  "buffer_begin = (0, 0)"

definition buffer_end :: "buffer \<Rightarrow> iter" where
  "buffer_end b = (length b - 1, length (last b))"

definition is_end :: "buffer \<Rightarrow> iter \<Rightarrow> bool" where
  "is_end b it = (it = buffer_end b)"

definition starts_line :: "iter \<Rightarrow> bool" where
  "starts_line it = (snd it = 0)"

text \<open>An iterator ends its line on the line terminator and at the end of the buffer.\<close>

definition ends_line :: "buffer \<Rightarrow> iter \<Rightarrow> bool" where
  "ends_line b it = (snd it = length (b ! fst it))"

text \<open>
  \<^verbatim>\<open>*iter\<close>: the character at the iterator, the newline at the end of a line that has a
  successor, and 0 at the end iterator, which cannot be dereferenced.
\<close>

definition get_char :: "buffer \<Rightarrow> iter \<Rightarrow> char" where
  "get_char b it =
     (if snd it < length (b ! fst it) then b ! fst it ! snd it
      else if Suc (fst it) < length b then NL
      else NUL)"

text \<open>
  \<^verbatim>\<open>forward_char\<close> and \<^verbatim>\<open>backward_char\<close> return the moved iterator with GTK's result:
  whether the iterator moved and can be dereferenced. A step onto the end iterator moves
  and returns false; a step at the end, or backward at the start of the buffer, stays.
\<close>

definition forward_char :: "buffer \<Rightarrow> iter \<Rightarrow> bool \<times> iter" where
  "forward_char b it =
     (if snd it < length (b ! fst it)
      then (\<not> is_end b (fst it, Suc (snd it)), (fst it, Suc (snd it)))
      else if Suc (fst it) < length b
      then (\<not> is_end b (Suc (fst it), 0), (Suc (fst it), 0))
      else (False, it))"

definition backward_char :: "buffer \<Rightarrow> iter \<Rightarrow> bool \<times> iter" where
  "backward_char b it =
     (if 0 < snd it then (True, (fst it, snd it - 1))
      else if 0 < fst it then (True, (fst it - 1, length (b ! (fst it - 1))))
      else (False, it))"

text \<open>
  \<^verbatim>\<open>forward_chars(count)\<close> and \<^verbatim>\<open>backward_chars(count)\<close> for a count that is not
  negative: they stop at the ends of the buffer, and a count of 0 returns false.
\<close>

primrec forward_chars :: "buffer \<Rightarrow> nat \<Rightarrow> iter \<Rightarrow> bool \<times> iter" where
  "forward_chars b 0 it = (False, it)"
| "forward_chars b (Suc n) it =
     (if n = 0 then forward_char b it
      else if fst (forward_char b it) then forward_chars b n (snd (forward_char b it))
      else (False, snd (forward_char b it)))"

primrec backward_steps :: "buffer \<Rightarrow> nat \<Rightarrow> iter \<Rightarrow> iter" where
  "backward_steps b 0 it = it"
| "backward_steps b (Suc n) it = backward_steps b n (snd (backward_char b it))"

definition backward_chars :: "buffer \<Rightarrow> nat \<Rightarrow> iter \<Rightarrow> bool \<times> iter" where
  "backward_chars b n it =
     (if n = 0 \<or> it = buffer_begin then (False, it) else (True, backward_steps b n it))"

text \<open>
  \<^verbatim>\<open>get_iter_at_line\<close>: the start of the line, and the end iterator for a line number
  past the last line.
\<close>

definition get_iter_at_line :: "buffer \<Rightarrow> nat \<Rightarrow> iter" where
  "get_iter_at_line b n = (if n < length b then (n, 0) else buffer_end b)"

text \<open>
  Modelled from the spec: \<^verbatim>\<open>get_iter_at_line_end\<close> is declared by a base class of
  \<^verbatim>\<open>Source::View\<close> whose source file is not among the sources. The spec's buffer
  interface gives \<open>line_length(line)\<close>; the iterator at the end of a line is the one at
  that offset, in front of the line's terminator.
\<close>

definition get_iter_at_line_end :: "buffer \<Rightarrow> nat \<Rightarrow> iter" where
  "get_iter_at_line_end b n = (if n < length b then (n, length (b ! n)) else buffer_end b)"

text \<open>The order of iterators in the buffer.\<close>

definition iter_less :: "iter \<Rightarrow> iter \<Rightarrow> bool" where
  "iter_less a c = (fst a < fst c \<or> (fst a = fst c \<and> snd a < snd c))"

definition iter_le :: "iter \<Rightarrow> iter \<Rightarrow> bool" where
  "iter_le a c = (iter_less a c \<or> a = c)"

text \<open>\<^verbatim>\<open>get_text(start, end)\<close> of two iterators of one line.\<close>

definition get_text_in_line :: "buffer \<Rightarrow> iter \<Rightarrow> iter \<Rightarrow> string" where
  "get_text_in_line b s e = take (snd e - snd s) (drop (snd s) (b ! fst s))"

fun split_lines :: "string \<Rightarrow> string list" where
  "split_lines [] = [[]]"
| "split_lines (c # cs) =
     (if c = NL then [] # split_lines cs
      else (c # hd (split_lines cs)) # tl (split_lines cs))"

fun join_lines :: "string list \<Rightarrow> string" where
  "join_lines [] = []"
| "join_lines [l] = l"
| "join_lines (l # ls) = l @ NL # join_lines ls"

section \<open>The view: buffer, marks, tab style and undo history\<close>

text \<open>
  Each mutation of the buffer is recorded in the undo history, between the markers of
  \<^verbatim>\<open>begin_user_action\<close> and \<^verbatim>\<open>end_user_action\<close>: the mutations between two
  markers are undone as one step. The lexical context (\<^verbatim>\<open>iter_has_context_class\<close>)
  is the answer of the syntax highlighter, a parameter of the model.
\<close>

datatype action =
    Begin_user_action
  | End_user_action
  | Inserted iter string
  | Erased iter iter

record view =
  lines :: buffer
  insert_mark :: iter
  selection_bound :: iter
  tab_char :: char
  tab_size :: nat
  context_class :: "iter \<Rightarrow> string \<Rightarrow> bool"
  is_bracket_language :: bool
  language_id :: "string option"
  file_path :: string
  modified :: bool
  undo :: "action list"

text \<open>The options of \<^verbatim>\<open>Config::get().source\<close> that the engine reads.\<close>

record config =
  default_tab_char :: char
  default_tab_size :: nat
  auto_tab_char_and_size :: bool
  tab_indents_line :: bool
  cleanup_whitespace_characters_option :: bool

definition begin_user_action :: "view \<Rightarrow> view" where
  "begin_user_action v = v\<lparr>undo := undo v @ [Begin_user_action]\<rparr>"

definition end_user_action :: "view \<Rightarrow> view" where
  "end_user_action v = v\<lparr>undo := undo v @ [End_user_action]\<rparr>"

definition get_has_selection :: "view \<Rightarrow> bool" where
  "get_has_selection v = (insert_mark v \<noteq> selection_bound v)"

text \<open>\<^verbatim>\<open>get_selection_bounds\<close> returns the two marks in buffer order.\<close>

definition get_selection_bounds :: "view \<Rightarrow> iter \<times> iter" where
  "get_selection_bounds v =
     (if iter_le (insert_mark v) (selection_bound v)
      then (insert_mark v, selection_bound v)
      else (selection_bound v, insert_mark v))"

definition place_cursor :: "view \<Rightarrow> iter \<Rightarrow> view" where
  "place_cursor v it = v\<lparr>insert_mark := it, selection_bound := it\<rparr>"

text \<open>
  \<^verbatim>\<open>erase(start, end)\<close> puts the two iterators in order, as GTK does, and removes the
  text between them. A mark inside the erased range moves to its start. GTK does nothing
  for an empty range, and nothing for the insertion of an empty text.
\<close>

definition erase_text :: "buffer \<Rightarrow> iter \<Rightarrow> iter \<Rightarrow> buffer" where
  "erase_text b s e =
     take (fst s) b @ [take (snd s) (b ! fst s) @ drop (snd e) (b ! fst e)]
       @ drop (Suc (fst e)) b"

definition mark_after_erase :: "iter \<Rightarrow> iter \<Rightarrow> iter \<Rightarrow> iter" where
  "mark_after_erase s e m =
     (if iter_le m s then m
      else if iter_le m e then s
      else if fst m = fst e then (fst s, snd s + (snd m - snd e))
      else (fst m - (fst e - fst s), snd m))"

definition erase :: "view \<Rightarrow> iter \<Rightarrow> iter \<Rightarrow> view" where
  "erase v x y =
     (if x = y then v
      else let s = (if iter_le x y then x else y);
               e = (if iter_le x y then y else x)
           in v\<lparr>lines := erase_text (lines v) s e,
                 insert_mark := mark_after_erase s e (insert_mark v),
                 selection_bound := mark_after_erase s e (selection_bound v),
                 modified := True,
                 undo := undo v @ [Erased s e]\<rparr>)"

text \<open>
  \<^verbatim>\<open>insert(iter, text)\<close>, named \<open>insert_at\<close> here. The two marks of a buffer have right gravity: a mark at the
  insertion point ends behind the inserted text.
\<close>

definition insert_text :: "buffer \<Rightarrow> iter \<Rightarrow> string \<Rightarrow> buffer" where
  "insert_text b p t =
     (let ls = split_lines t;
          l = b ! fst p;
          ls' = (take (snd p) l @ hd ls) # tl ls
      in take (fst p) b @ butlast ls' @ [last ls' @ drop (snd p) l] @ drop (Suc (fst p)) b)"

definition mark_after_insert :: "iter \<Rightarrow> string \<Rightarrow> iter \<Rightarrow> iter" where
  "mark_after_insert p t m =
     (let ls = split_lines t; k = length ls - 1
      in if iter_less m p then m
         else if fst m = fst p
           then (fst p + k, (if k = 0 then snd m + length t else length (last ls) + (snd m - snd p)))
         else (fst m + k, snd m))"

definition insert_at :: "view \<Rightarrow> iter \<Rightarrow> string \<Rightarrow> view" where
  "insert_at v p t =
     (if t = [] then v
      else v\<lparr>lines := insert_text (lines v) p t,
             insert_mark := mark_after_insert p t (insert_mark v),
             selection_bound := mark_after_insert p t (selection_bound v),
             modified := True,
             undo := undo v @ [Inserted p t]\<rparr>)"

definition insert_at_cursor :: "view \<Rightarrow> string \<Rightarrow> view" where
  "insert_at_cursor v t = insert_at v (insert_mark v) t"

section \<open>Placing the cursor\<close>

text \<open>
  \<^verbatim>\<open>get_iter_at_line_offset(line, offset)\<close> takes two C integers. GTK returns the end
  iterator for a line past the last one and the end of the line for an offset past it;
  a negative argument is outside its contract, and the model answers \<open>None\<close>.
\<close>

definition get_iter_at_line_offset :: "buffer \<Rightarrow> int \<Rightarrow> int \<Rightarrow> iter option" where
  "get_iter_at_line_offset b line offset =
     (if line < 0 \<or> offset < 0 then None
      else if int (length b) \<le> line then Some (buffer_end b)
      else Some (nat line, min (nat offset) (length (b ! nat line))))"

definition place_cursor_at_line_offset :: "view \<Rightarrow> int \<Rightarrow> int \<Rightarrow> view option" where
  "place_cursor_at_line_offset v line offset =
     (let line = min line (int (get_line_count (lines v)) - 1);
          line = (if line < 0 then 0 else line);
          iter = get_iter_at_line_end (lines v) (nat line);
          offset = min offset (int (get_line_offset iter))
      in map_option (place_cursor v) (get_iter_at_line_offset (lines v) line offset))"

section \<open>Cleaning up whitespace\<close>

function cleanup_backward :: "buffer \<Rightarrow> iter \<Rightarrow> iter" where
  "cleanup_backward b iter =
     (if \<not> starts_line iter \<and>
         (get_char b iter = SPACE \<or> get_char b iter = TAB \<or> ends_line b iter)
      then cleanup_backward b (snd (backward_char b iter))
      else iter)"
  by pat_completeness auto
termination
  by (relation "measure (\<lambda>(b, it). snd it)") (auto simp: starts_line_def backward_char_def)

declare cleanup_backward.simps [simp del]

definition cleanup_line :: "view \<Rightarrow> nat \<Rightarrow> view" where
  "cleanup_line v line =
     (let iter = get_iter_at_line (lines v) line;
          end_iter = get_iter_at_line_end (lines v) line
      in if iter = end_iter then v
         else let iter = cleanup_backward (lines v) end_iter;
                  iter = (if get_char (lines v) iter \<noteq> SPACE \<and> get_char (lines v) iter \<noteq> TAB
                          then snd (forward_char (lines v) iter) else iter)
              in if iter = end_iter then v else erase v iter end_iter)"

text \<open>
  The text of a line without its trailing run of spaces and tabs: what the claims call
  erasing the trailing whitespace of a line.
\<close>

definition trim_right :: "string \<Rightarrow> string" where
  "trim_right l = rev (dropWhile (\<lambda>c. c = SPACE \<or> c = TAB) (rev l))"

lemma cleanup_backward_step:
  assumes "b ! i = l" "Suc j \<le> length l"
    "Suc j < length l \<Longrightarrow> l ! Suc j = SPACE \<or> l ! Suc j = TAB"
  shows "cleanup_backward b (i, Suc j) = cleanup_backward b (i, j)"
  using assms
  by (subst cleanup_backward.simps)
     (auto simp: starts_line_def ends_line_def get_char_def backward_char_def)

lemma cleanup_backward_stop:
  assumes "b ! i = l" "j = 0 \<or> (j < length l \<and> l ! j \<noteq> SPACE \<and> l ! j \<noteq> TAB)"
  shows "cleanup_backward b (i, j) = (i, j)"
  using assms
  by (subst cleanup_backward.simps)
     (auto simp: starts_line_def ends_line_def get_char_def backward_char_def)

lemma cleanup_backward_col:
  assumes "b ! i = xs @ ys" "list_all (\<lambda>c. c = SPACE \<or> c = TAB) ys"
    "xs = [] \<or> (last xs \<noteq> SPACE \<and> last xs \<noteq> TAB)" "n \<le> length ys"
  shows "cleanup_backward b (i, length xs + n) = (i, length xs - 1)"
  using assms
proof (induction n)
  case 0
  show ?case
  proof (cases "xs = []")
    case True
    then show ?thesis using cleanup_backward_stop [of b i "xs @ ys" 0] 0 by simp
  next
    case False
    then obtain k where k: "length xs = Suc k" by (cases xs) auto
    have lastxs: "last xs = xs ! k" using False k by (simp add: last_conv_nth)
    have "cleanup_backward b (i, Suc k) = cleanup_backward b (i, k)"
      using 0 k by (intro cleanup_backward_step [of b i "xs @ ys"])
        (auto simp: nth_append list_all_length)
    also have "\<dots> = (i, k)"
      using 0 k False lastxs by (intro cleanup_backward_stop [of b i "xs @ ys"])
        (auto simp: nth_append)
    finally show ?thesis using k by simp
  qed
next
  case (Suc n)
  have "cleanup_backward b (i, Suc (length xs + n)) = cleanup_backward b (i, length xs + n)"
    using Suc.prems by (intro cleanup_backward_step [of b i "xs @ ys"])
      (auto simp: nth_append list_all_length)
  then show ?case using Suc by simp
qed

lemma trim_right_decomp:
  "l = trim_right l @ rev (takeWhile (\<lambda>c. c = SPACE \<or> c = TAB) (rev l))"
proof -
  let ?P = "\<lambda>c. c = SPACE \<or> c = TAB"
  have "rev (dropWhile ?P (rev l)) @ rev (takeWhile ?P (rev l))
      = rev (takeWhile ?P (rev l) @ dropWhile ?P (rev l))"
    by (rule rev_append [symmetric])
  also have "\<dots> = l"
    by (simp only: takeWhile_dropWhile_id rev_rev_ident)
  finally show ?thesis unfolding trim_right_def by (rule sym)
qed

lemma trim_right_last:
  "trim_right l = [] \<or> (last (trim_right l) \<noteq> SPACE \<and> last (trim_right l) \<noteq> TAB)"
proof (cases "dropWhile (\<lambda>c. c = SPACE \<or> c = TAB) (rev l) = []")
  case True
  then show ?thesis by (simp add: trim_right_def)
next
  case False
  then show ?thesis
    using hd_dropWhile [of "\<lambda>c. c = SPACE \<or> c = TAB" "rev l"]
    by (simp add: trim_right_def last_rev)
qed

lemma trim_right_tail:
  "list_all (\<lambda>c. c = SPACE \<or> c = TAB) (rev (takeWhile (\<lambda>c. c = SPACE \<or> c = TAB) (rev l)))"
  by (auto simp: list_all_iff dest: set_takeWhileD)

lemma length_trim_right: "length (trim_right l) \<le> length l"
  unfolding trim_right_def using length_dropWhile_le [of _ "rev l"] by simp

lemma erase_text_in_line:
  assumes "i < length b" "j \<le> k"
  shows "erase_text b (i, j) (i, k) = b[i := take j (b ! i) @ drop k (b ! i)]"
  using assms by (simp add: erase_text_def upd_conv_take_nth_drop)

lemma lines_erase_in_line:
  assumes "i < length (lines v)" "j \<le> k"
  shows "lines (erase v (i, j) (i, k)) = (lines v)[i := take j (lines v ! i) @ drop k (lines v ! i)]"
proof (cases "j = k")
  case True
  then have "(lines v)[i := take j (lines v ! i) @ drop k (lines v ! i)] = lines v"
    using list_update_id [of "lines v" i] by simp
  then show ?thesis using True by (simp add: erase_def)
next
  case False
  then show ?thesis
    using assms by (auto simp: erase_def Let_def iter_le_def iter_less_def erase_text_in_line)
qed

lemma last_conv_nth_line: "i < length b \<Longrightarrow> Suc i = length b \<Longrightarrow> last b = b ! i"
  by (cases b rule: rev_cases) (auto simp: nth_append)

lemma forward_char_in_line:
  assumes "i < length b" "j < length (b ! i)"
  shows "snd (forward_char b (i, j)) = (i, Suc j)"
  using assms by (simp add: forward_char_def)

lemma cleanup_line_iter:
  assumes "line < length b" "b ! line \<noteq> []"
  shows "(let iter = cleanup_backward b (line, length (b ! line))
          in if get_char b iter \<noteq> SPACE \<and> get_char b iter \<noteq> TAB
             then snd (forward_char b iter) else iter) = (line, length (trim_right (b ! line)))"
proof -
  define l where "l = b ! line"
  define t where "t = trim_right l"
  define ys where "ys = rev (takeWhile (\<lambda>c. c = SPACE \<or> c = TAB) (rev l))"
  have l: "l = t @ ys" unfolding t_def ys_def by (rule trim_right_decomp)
  have ys: "list_all (\<lambda>c. c = SPACE \<or> c = TAB) ys" unfolding ys_def by (rule trim_right_tail)
  have t: "t = [] \<or> (last t \<noteq> SPACE \<and> last t \<noteq> TAB)" unfolding t_def by (rule trim_right_last)
  have cb: "cleanup_backward b (line, length l) = (line, length t - 1)"
    using cleanup_backward_col [of b line t ys "length ys"] l ys t l_def by simp
  show ?thesis
  proof (cases "t = []")
    case True
    then have "ys \<noteq> []" using l assms l_def by simp
    then have "ys ! 0 = SPACE \<or> ys ! 0 = TAB" using ys by (cases ys) auto
    then have "get_char b (line, 0) = SPACE \<or> get_char b (line, 0) = TAB"
      using True l l_def \<open>ys \<noteq> []\<close> by (auto simp: get_char_def)
    then show ?thesis using cb True l_def t_def by (auto simp: Let_def)
  next
    case False
    then obtain k where k: "length t = Suc k" by (cases t) auto
    have "l ! k = last t" using False k l by (simp add: last_conv_nth nth_append)
    then have "get_char b (line, k) \<noteq> SPACE \<and> get_char b (line, k) \<noteq> TAB"
      using t False k l l_def by (auto simp: get_char_def)
    moreover have "snd (forward_char b (line, k)) = (line, Suc k)"
      using assms k l l_def by (intro forward_char_in_line) auto
    ultimately show ?thesis using cb k l_def t_def by (auto simp: Let_def)
  qed
qed

lemma take_length_trim_right: "take (length (trim_right l)) l = trim_right l"
proof -
  have "take (length (trim_right l)) (trim_right l @ ys) = trim_right l" for ys by simp
  then show ?thesis using trim_right_decomp [of l] by metis
qed

lemma lines_cleanup_line:
  assumes "line < length (lines v)"
  shows "lines (cleanup_line v line) = (lines v)[line := trim_right (lines v ! line)]"
proof (cases "lines v ! line = []")
  case True
  then have "(lines v)[line := trim_right (lines v ! line)] = lines v"
    using list_update_id [of "lines v" line] by (simp add: trim_right_def)
  then show ?thesis using assms True
    by (simp add: cleanup_line_def get_iter_at_line_def get_iter_at_line_end_def)
next
  case False
  define l where "l = lines v ! line"
  define iter where "iter = (line, length (trim_right l))"
  have iter: "(let iter = cleanup_backward (lines v) (line, length l)
          in if get_char (lines v) iter \<noteq> SPACE \<and> get_char (lines v) iter \<noteq> TAB
             then snd (forward_char (lines v) iter) else iter) = iter"
    using cleanup_line_iter [of line "lines v"] assms False by (simp add: l_def iter_def)
  have cl: "cleanup_line v line =
      (if iter = (line, length l) then v else erase v iter (line, length l))"
    using assms False iter
    by (simp add: cleanup_line_def get_iter_at_line_def get_iter_at_line_end_def Let_def l_def)
  show ?thesis
  proof (cases "iter = (line, length l)")
    case True
    then have "trim_right l = l"
      using take_length_trim_right [of l] by (simp add: iter_def)
    then show ?thesis using cl True list_update_id [of "lines v" line] by (simp add: l_def)
  next
    case False
    then show ?thesis
      using cl assms length_trim_right [of l] take_length_trim_right [of l]
      by (simp add: iter_def lines_erase_in_line l_def)
  qed
qed

lemma get_line_count_cleanup_line:
  "get_line_count (lines (cleanup_line v line)) = get_line_count (lines v)"
proof (cases "line < length (lines v)")
  case True
  then show ?thesis by (simp add: lines_cleanup_line get_line_count_def)
next
  case False
  then show ?thesis
    by (simp add: cleanup_line_def get_iter_at_line_def get_iter_at_line_end_def)
qed

function cleanup_lines :: "view \<Rightarrow> nat \<Rightarrow> view" where
  "cleanup_lines v line =
     (if line < get_line_count (lines v) then cleanup_lines (cleanup_line v line) (Suc line)
      else v)"
  by pat_completeness auto
termination
  by (relation "measure (\<lambda>(v, line). get_line_count (lines v) - line)")
     (auto simp: get_line_count_cleanup_line)

declare cleanup_lines.simps [simp del]

definition cleanup_whitespace_characters :: "view \<Rightarrow> view" where
  "cleanup_whitespace_characters v =
     (let v = begin_user_action v;
          v = cleanup_lines v 0;
          iter = buffer_end (lines v);
          v = (if \<not> starts_line iter then insert_at v (buffer_end (lines v)) [NL] else v)
      in end_user_action v)"

text \<open>
  \<^verbatim>\<open>save\<close>: \<open>write_ok\<close> is the result of \<^verbatim>\<open>filesystem::write\<close>, which is not
  part of the engine. The result is the returned flag and the view.
\<close>

definition save :: "config \<Rightarrow> bool \<Rightarrow> view \<Rightarrow> bool \<times> view" where
  "save cfg write_ok v =
     (if file_path v = [] \<or> \<not> modified v then (False, v)
      else let v = (if cleanup_whitespace_characters_option cfg
                    then cleanup_whitespace_characters v else v)
           in if write_ok then (True, v\<lparr>modified := False\<rparr>) else (False, v))"

section \<open>Example views\<close>

definition example_view :: view where
  "example_view =
     \<lparr>lines = [''a b  '', ''   '', '''', ''x''], insert_mark = (0, 0), selection_bound = (0, 0),
      tab_char = TAB, tab_size = 2, context_class = (\<lambda>_ _. False),
      is_bracket_language = True, language_id = None, file_path = ''f'', modified = True,
      undo = []\<rparr>"

section \<open>Claims about cleaning up whitespace and placing the cursor\<close>

lemma lines_cleanup_lines:
  "lines (cleanup_lines v k) = take k (lines v) @ map trim_right (drop k (lines v))"
proof (induction v k rule: cleanup_lines.induct)
  case (1 v line)
  show ?case
  proof (cases "line < get_line_count (lines v)")
    case True
    then have lt: "line < length (lines v)" by (simp add: get_line_count_def)
    have "lines (cleanup_lines v line) = lines (cleanup_lines (cleanup_line v line) (Suc line))"
      using True by (subst cleanup_lines.simps) simp
    also have "\<dots> = take (Suc line) (lines (cleanup_line v line))
        @ map trim_right (drop (Suc line) (lines (cleanup_line v line)))"
      using 1 True by simp
    also have "\<dots> = take line (lines v) @ trim_right (lines v ! line)
        # map trim_right (drop (Suc line) (lines v))"
      using lt by (simp add: lines_cleanup_line take_Suc_conv_app_nth)
    also have "\<dots> = take line (lines v) @ map trim_right (drop line (lines v))"
      using lt Cons_nth_drop_Suc [of line "lines v"] by (metis list.simps(9))
    finally show ?thesis .
  next
    case False
    then show ?thesis by (subst cleanup_lines.simps) (simp add: get_line_count_def)
  qed
qed

lemma split_lines_newline: "split_lines [NL] = [[], []]"
  by simp

lemma insert_text_newline_at_end:
  assumes "b \<noteq> []"
  shows "insert_text b (buffer_end b) [NL] = b @ [[]]"
proof -
  obtain bs l where b: "b = bs @ [l]" using assms by (cases b rule: rev_cases) auto
  show ?thesis by (simp add: insert_text_def buffer_end_def b Let_def)
qed

text \<open>
  C9, as amended. For every buffer, \<^verbatim>\<open>cleanup_whitespace_characters\<close> erases on each line
  exactly the trailing run of spaces and tabs, so every line becomes \<open>trim_right\<close> of
  itself and no other character changes, and it appends one final newline (a new empty
  last line) when the last line is not empty after this erasure, that is when the last
  line has a character other than a space or a tab. A last line of spaces and tabs only
  becomes the empty last line, and nothing is appended. \<^verbatim>\<open>save\<close> of a modified buffer
  with a file path runs this cleanup when the configuration option is set, so saving
  changes the buffer in exactly this way.
\<close>

theorem cleanup_whitespace_characters_lines:
  assumes "lines v \<noteq> []"
  shows "lines (cleanup_whitespace_characters v) =
           map trim_right (lines v) @ (if trim_right (last (lines v)) = [] then [] else [[]])
       \<and> (file_path v \<noteq> [] \<and> modified v \<and> cleanup_whitespace_characters_option cfg \<longrightarrow>
            lines (snd (save cfg write_ok v)) = lines (cleanup_whitespace_characters v))"
proof -
  define v1 where "v1 = cleanup_lines (begin_user_action v) 0"
  have l1: "lines v1 = map trim_right (lines v)"
    by (simp add: v1_def lines_cleanup_lines begin_user_action_def)
  have ne: "lines v1 \<noteq> []" using assms l1 by simp
  have last1: "last (lines v1) = trim_right (last (lines v))"
    using assms l1 by (simp add: last_map)
  have "lines (cleanup_whitespace_characters v) =
      (if trim_right (last (lines v)) = [] then lines v1 else lines v1 @ [[]])"
    using ne last1 insert_text_newline_at_end [of "lines v1"]
    by (simp add: cleanup_whitespace_characters_def Let_def v1_def [symmetric] starts_line_def
        buffer_end_def end_user_action_def insert_at_def)
  then show ?thesis by (simp add: l1 save_def Let_def)
qed

text \<open>The theorem at a buffer of four lines, three of them with trailing whitespace.\<close>

theorem cleanup_whitespace_characters_lines_witness:
  "lines example_view \<noteq> [] \<and>
   lines (cleanup_whitespace_characters example_view) = [''a b'', '''', '''', ''x'', '''']"
  using cleanup_whitespace_characters_lines [of example_view]
  by (simp add: example_view_def trim_right_def)

text \<open>
  The newline is not appended whenever the last line of the buffer is not empty: the test
  comes after the erasure. The last line of the buffer of the two lines \<open>a\<close> and two
  spaces is not empty, and the cleanup leaves two lines, the second one empty.
\<close>

theorem cleanup_whitespace_characters_counterexample:
  "last (lines (example_view\<lparr>lines := [''a'', ''  '']\<rparr>)) \<noteq> [] \<and>
   lines (cleanup_whitespace_characters (example_view\<lparr>lines := [''a'', ''  '']\<rparr>))
     = [''a'', '''']"
  by code_simp

text \<open>
  C10. \<^verbatim>\<open>place_cursor_at_line_offset\<close> clamps the line into the buffer and the offset to
  at most the length of the line, but it does not clamp a negative offset, as it does a
  negative line: at line 0 and offset -1 it asks GTK for the iterator at offset -1, which
  is no position of the document.
\<close>

theorem place_cursor_at_line_offset_negative_offset:
  "place_cursor_at_line_offset example_view 0 (- 1) = None"
  by (simp add: place_cursor_at_line_offset_def get_iter_at_line_offset_def Let_def
      get_line_count_def get_iter_at_line_end_def get_line_offset_def example_view_def)

text \<open>For an offset that is not negative the cursor is placed at a valid position.\<close>

lemma place_cursor_at_line_offset_valid:
  assumes "lines v \<noteq> []" "0 \<le> offset"
  shows "\<exists>v'. place_cursor_at_line_offset v line offset = Some v'
            \<and> valid_iter (lines v') (insert_mark v') \<and> lines v' = lines v"
  using assms
  by (auto simp: place_cursor_at_line_offset_def get_iter_at_line_offset_def Let_def
      get_line_count_def get_iter_at_line_end_def get_line_offset_def place_cursor_def
      valid_iter_def min_def)

section \<open>Indentation helpers and the Shift-Tab outdent\<close>

text \<open>
  \<^verbatim>\<open>get_tabs_end_iter\<close> walks from the start of a line over spaces and tabs;
  \<^verbatim>\<open>get_line_before\<close> is the text from the start of the line to the iterator. The
  two loops of the Shift-Tab branch of \<^verbatim>\<open>on_key_press_event_basic\<close> follow:
  \<open>shift_tab_scan\<close> computes \<^verbatim>\<open>indent_left_steps\<close> and \<^verbatim>\<open>ignore_line\<close> and returns
  \<open>None\<close> where the source returns early, \<open>shift_tab_erase\<close> erases. \<^verbatim>\<open>ignore_line.at\<close>
  throws for an index out of range, the error \<open>Out_of_range\<close> of the model.
\<close>

lemma get_char_whitespace_in_line:
  "get_char b it = SPACE \<or> get_char b it = TAB \<Longrightarrow> snd it < length (b ! fst it)"
  by (auto simp: get_char_def split: if_splits)

function tabs_end_forward :: "buffer \<Rightarrow> iter \<Rightarrow> iter" where
  "tabs_end_forward b it =
     (if (get_char b it = SPACE \<or> get_char b it = TAB) \<and> \<not> ends_line b it
      then (if fst (forward_char b it) then tabs_end_forward b (snd (forward_char b it))
            else snd (forward_char b it))
      else it)"
  by pat_completeness auto
termination
proof (relation "measure (\<lambda>(b, it). length (b ! fst it) - snd it)", goal_cases)
  case 1
  show ?case by simp
next
  case (2 b it)
  then have "snd it < length (b ! fst it)" using get_char_whitespace_in_line by blast
  then show ?case using 2 by (auto simp: forward_char_def Let_def split: if_splits)
qed

declare tabs_end_forward.simps [simp del]

definition get_tabs_end_iter :: "buffer \<Rightarrow> nat \<Rightarrow> iter" where
  "get_tabs_end_iter b line_nr = tabs_end_forward b (get_iter_at_line b line_nr)"

definition get_line_before :: "buffer \<Rightarrow> iter \<Rightarrow> string" where
  "get_line_before b it = get_text_in_line b (get_iter_at_line b (get_line it)) it"

datatype error = Out_of_range

function shift_tab_scan ::
  "view \<Rightarrow> iter \<Rightarrow> nat \<Rightarrow> nat \<Rightarrow> nat \<Rightarrow> bool list \<Rightarrow> (nat \<times> bool list) option" where
  "shift_tab_scan v selection_end line_nr line_end indent_left_steps ignore_line =
     (if line_nr \<le> line_end then
        (let line_it = get_iter_at_line (lines v) line_nr in
         if \<not> get_has_selection v \<or> line_it \<noteq> selection_end then
           (let tabs_end_iter = get_tabs_end_iter (lines v) line_nr in
            if starts_line tabs_end_iter \<and> ends_line (lines v) tabs_end_iter
            then shift_tab_scan v selection_end (Suc line_nr) line_end indent_left_steps
                   (ignore_line @ [True])
            else (let line_tabs = get_line_before (lines v) tabs_end_iter in
                  if 0 < length line_tabs
                  then shift_tab_scan v selection_end (Suc line_nr) line_end
                         (min indent_left_steps (length line_tabs)) (ignore_line @ [False])
                  else None))
         else shift_tab_scan v selection_end (Suc line_nr) line_end indent_left_steps ignore_line)
      else Some (indent_left_steps, ignore_line))"
  by pat_completeness auto
termination
  by (relation "measure (\<lambda>(v, se, line_nr, line_end, s, ig). Suc line_end - line_nr)") auto

declare shift_tab_scan.simps [simp del]

function shift_tab_erase ::
  "view \<Rightarrow> iter \<Rightarrow> nat \<Rightarrow> nat \<Rightarrow> nat \<Rightarrow> nat \<Rightarrow> bool list \<Rightarrow> error + view" where
  "shift_tab_erase v selection_end line_start line_nr line_end indent_left_steps ignore_line =
     (if line_nr \<le> line_end then
        (let line_it = get_iter_at_line (lines v) line_nr in
         if \<not> get_has_selection v \<or> line_it \<noteq> selection_end then
           (let line_plus_it = snd (forward_chars (lines v) indent_left_steps line_it) in
            if length ignore_line \<le> line_nr - line_start then Inl Out_of_range
            else if \<not> ignore_line ! (line_nr - line_start)
            then shift_tab_erase (erase v line_it line_plus_it) selection_end line_start
                   (Suc line_nr) line_end indent_left_steps ignore_line
            else shift_tab_erase v selection_end line_start (Suc line_nr) line_end
                   indent_left_steps ignore_line)
         else shift_tab_erase v selection_end line_start (Suc line_nr) line_end
                indent_left_steps ignore_line)
      else Inr v)"
  by pat_completeness auto
termination
  by (relation "measure (\<lambda>(v, se, ls, line_nr, line_end, s, ig). Suc line_end - line_nr)") auto

declare shift_tab_erase.simps [simp del]

definition basic_shift_tab :: "view \<Rightarrow> error + view" where
  "basic_shift_tab v =
     (let v = begin_user_action v;
          selection_start = fst (get_selection_bounds v);
          selection_end = snd (get_selection_bounds v);
          line_start = get_line selection_start;
          line_end = get_line selection_end
      in case shift_tab_scan v selection_end line_start line_end (tab_size v) [] of
           None \<Rightarrow> Inr (end_user_action v)
         | Some (indent_left_steps, ignore_line) \<Rightarrow>
             map_sum id end_user_action
               (shift_tab_erase v selection_end line_start line_start line_end
                  indent_left_steps ignore_line))"

text \<open>
  The words of the Shift-Tab claim: the leading whitespace of a line, the lines the
  operation touches (the lines of the selection, without the line the selection ends at
  the start of), the touched lines that are not empty, whether one of them has no leading
  whitespace, and the minimum of the tab size and their leading whitespace runs.
\<close>

definition leading_whitespace :: "string \<Rightarrow> string" where
  "leading_whitespace l = takeWhile (\<lambda>c. c = SPACE \<or> c = TAB) l"

definition outdent_touched :: "view \<Rightarrow> nat \<Rightarrow> bool" where
  "outdent_touched v i =
     (get_line (fst (get_selection_bounds v)) \<le> i \<and> i \<le> get_line (snd (get_selection_bounds v)) \<and>
      (get_has_selection v \<longrightarrow> (i, 0) \<noteq> snd (get_selection_bounds v)))"

definition outdent_lines :: "view \<Rightarrow> nat list" where
  "outdent_lines v =
     filter (\<lambda>i. outdent_touched v i \<and> lines v ! i \<noteq> []) [0..<length (lines v)]"

definition outdent_aborts :: "view \<Rightarrow> bool" where
  "outdent_aborts v = list_ex (\<lambda>i. leading_whitespace (lines v ! i) = []) (outdent_lines v)"

definition outdent_steps :: "view \<Rightarrow> nat" where
  "outdent_steps v =
     foldr min (map (\<lambda>i. length (leading_whitespace (lines v ! i))) (outdent_lines v)) (tab_size v)"

lemma forward_char_in_line_fst:
  assumes "i < length b" "j < length (b ! i)"
  shows "forward_char b (i, j) = (\<not> is_end b (i, Suc j), (i, Suc j))"
  using assms by (simp add: forward_char_def)

lemma tabs_end_forward_col:
  assumes "i < length b" "j \<le> length (b ! i)"
  shows "tabs_end_forward b (i, j) = (i, j + length (leading_whitespace (drop j (b ! i))))"
  using assms
proof (induction "length (b ! i) - j" arbitrary: j)
  case 0
  then show ?case
    by (subst tabs_end_forward.simps) (simp add: ends_line_def leading_whitespace_def)
next
  case (Suc n)
  then have lt: "j < length (b ! i)" by simp
  then have dr: "drop j (b ! i) = b ! i ! j # drop (Suc j) (b ! i)"
    by (simp add: Cons_nth_drop_Suc)
  have gc: "get_char b (i, j) = b ! i ! j" using lt by (simp add: get_char_def)
  show ?case
  proof (cases "b ! i ! j = SPACE \<or> b ! i ! j = TAB")
    case True
    have fc: "forward_char b (i, j) = (\<not> is_end b (i, Suc j), (i, Suc j))"
      using Suc.prems lt by (rule_tac forward_char_in_line_fst) auto
    have IH: "tabs_end_forward b (i, Suc j)
        = (i, Suc j + length (leading_whitespace (drop (Suc j) (b ! i))))"
      using Suc lt by (intro Suc.hyps(1)) auto
    have e: "is_end b (i, Suc j) \<Longrightarrow> drop (Suc j) (b ! i) = []"
      using Suc.prems last_conv_nth_line [of i b]
      by (auto simp: is_end_def buffer_end_def)
    show ?thesis
      using True lt gc fc IH e
      by (subst tabs_end_forward.simps)
         (auto simp: ends_line_def dr leading_whitespace_def)
  next
    case False
    then show ?thesis using gc
      by (subst tabs_end_forward.simps) (auto simp: dr leading_whitespace_def)
  qed
qed

lemma get_tabs_end_iter_col:
  assumes "i < length b"
  shows "get_tabs_end_iter b i = (i, length (leading_whitespace (b ! i)))"
  using assms tabs_end_forward_col [of i b 0]
  by (simp add: get_tabs_end_iter_def get_iter_at_line_def)

lemma length_leading_whitespace: "length (leading_whitespace l) \<le> length l"
  by (simp add: leading_whitespace_def length_takeWhile_le)

lemma take_leading_whitespace: "take (length (leading_whitespace l)) l = leading_whitespace l"
  unfolding leading_whitespace_def
  by (metis append_eq_conv_conj takeWhile_dropWhile_id)

lemma get_line_before_tabs_end:
  assumes "i < length b"
  shows "get_line_before b (get_tabs_end_iter b i) = leading_whitespace (b ! i)"
  using assms
  by (simp add: get_tabs_end_iter_col get_line_before_def get_text_in_line_def get_line_def
      get_iter_at_line_def take_leading_whitespace)

lemma leading_whitespace_Nil: "leading_whitespace [] = []"
  by (simp add: leading_whitespace_def)

lemma snd_forward_chars_in_line:
  assumes "i < length b" "j + k \<le> length (b ! i)"
  shows "snd (forward_chars b k (i, j)) = (i, j + k)"
  using assms
proof (induction k arbitrary: j)
  case 0
  then show ?case by simp
next
  case (Suc k)
  have fc: "forward_char b (i, j) = (\<not> is_end b (i, Suc j), (i, Suc j))"
    using Suc.prems by (intro forward_char_in_line_fst) auto
  show ?case
  proof (cases "k = 0")
    case True
    then show ?thesis using fc by simp
  next
    case False
    then have "\<not> is_end b (i, Suc j)"
      using Suc.prems last_conv_nth_line [of i b] by (auto simp: is_end_def buffer_end_def)
    then show ?thesis using fc False Suc.IH [of "Suc j"] Suc.prems by simp
  qed
qed


lemma foldr_min_min: "foldr min xs (min a (x::nat)) = min x (foldr min xs a)"
  by (induction xs) (auto simp: min.left_commute)

lemma foldl_min_foldr: "foldl min (a::nat) xs = foldr min xs a"
  by (induction xs arbitrary: a) (auto simp: foldr_min_min)

lemma foldr_min_le: "foldr min xs (a::nat) \<le> a \<and> (\<forall>x\<in>set xs. foldr min xs a \<le> x)"
  by (induction xs) (auto simp: min_le_iff_disj)

lemma shift_tab_scan_result:
  assumes "line_end < length (lines v)"
  shows "shift_tab_scan v se line_nr line_end steps ign =
     (let ts = filter (\<lambda>i. \<not> get_has_selection v \<or> (i, 0) \<noteq> se) [line_nr..<Suc line_end];
          ne = filter (\<lambda>i. lines v ! i \<noteq> []) ts
      in if list_ex (\<lambda>i. leading_whitespace (lines v ! i) = []) ne then None
         else Some (foldl min steps (map (\<lambda>i. length (leading_whitespace (lines v ! i))) ne),
                    ign @ map (\<lambda>i. lines v ! i = []) ts))"
  using assms
proof (induction v se line_nr line_end steps ign rule: shift_tab_scan.induct)
  case (1 v se line_nr line_end steps ign)
  show ?case
  proof (cases "line_nr \<le> line_end")
    case False
    then show ?thesis by (subst shift_tab_scan.simps) simp
  next
    case True
    then have lt: "line_nr < length (lines v)" using "1.prems" by simp
    have upt: "[line_nr..<Suc line_end] = line_nr # [Suc line_nr..<Suc line_end]"
      using True by (simp add: upt_conv_Cons)
    have it: "get_iter_at_line (lines v) line_nr = (line_nr, 0)"
      using lt by (simp add: get_iter_at_line_def)
    have te: "get_tabs_end_iter (lines v) line_nr
        = (line_nr, length (leading_whitespace (lines v ! line_nr)))"
      using lt by (rule get_tabs_end_iter_col)
    have lb: "get_line_before (lines v) (get_tabs_end_iter (lines v) line_nr)
        = leading_whitespace (lines v ! line_nr)"
      using lt by (rule get_line_before_tabs_end)
    have empty: "(starts_line (get_tabs_end_iter (lines v) line_nr)
        \<and> ends_line (lines v) (get_tabs_end_iter (lines v) line_nr)) = (lines v ! line_nr = [])"
      using te by (auto simp: starts_line_def ends_line_def leading_whitespace_Nil)
    show ?thesis
    proof (cases "\<not> get_has_selection v \<or> (line_nr, 0) \<noteq> se")
      case untouched: False
      then have "shift_tab_scan v se line_nr line_end steps ign
          = shift_tab_scan v se (Suc line_nr) line_end steps ign"
        using True it by (subst shift_tab_scan.simps) simp
      then show ?thesis
        using "1.IH"(3) [OF True] it untouched "1.prems" upt by simp
    next
      case touched: True
      show ?thesis
      proof (cases "lines v ! line_nr = []")
        case e: True
        have "shift_tab_scan v se line_nr line_end steps ign
            = shift_tab_scan v se (Suc line_nr) line_end steps (ign @ [True])"
          using True it touched empty e by (subst shift_tab_scan.simps) (simp add: Let_def)
        moreover have "shift_tab_scan v se (Suc line_nr) line_end steps (ign @ [True]) =
          (let ts = filter (\<lambda>i. \<not> get_has_selection v \<or> (i, 0) \<noteq> se) [Suc line_nr..<Suc line_end];
               ne = filter (\<lambda>i. lines v ! i \<noteq> []) ts
           in if list_ex (\<lambda>i. leading_whitespace (lines v ! i) = []) ne then None
              else Some (foldl min steps (map (\<lambda>i. length (leading_whitespace (lines v ! i))) ne),
                    (ign @ [True]) @ map (\<lambda>i. lines v ! i = []) ts))"
          using True it touched empty e "1.prems"
          by (intro "1.IH"(1) [OF True]) (auto simp: Let_def)
        ultimately show ?thesis using touched e upt by (simp add: Let_def)
      next
        case ne: False
        show ?thesis
        proof (cases "leading_whitespace (lines v ! line_nr) = []")
          case True
          have "shift_tab_scan v se line_nr line_end steps ign = None"
            using \<open>line_nr \<le> line_end\<close> it touched empty ne lb True
            by (subst shift_tab_scan.simps) (auto simp: Let_def)
          then show ?thesis using touched ne upt True by (simp add: Let_def)
        next
          case False
          have "shift_tab_scan v se line_nr line_end steps ign
              = shift_tab_scan v se (Suc line_nr) line_end
                  (min steps (length (leading_whitespace (lines v ! line_nr)))) (ign @ [False])"
            using True it touched empty ne lb False
            by (subst shift_tab_scan.simps) (auto simp: Let_def)
          moreover have "shift_tab_scan v se (Suc line_nr) line_end
                  (min steps (length (leading_whitespace (lines v ! line_nr)))) (ign @ [False]) =
            (let ts = filter (\<lambda>i. \<not> get_has_selection v \<or> (i, 0) \<noteq> se) [Suc line_nr..<Suc line_end];
                 ne = filter (\<lambda>i. lines v ! i \<noteq> []) ts
             in if list_ex (\<lambda>i. leading_whitespace (lines v ! i) = []) ne then None
                else Some (foldl min (min steps (length (leading_whitespace (lines v ! line_nr))))
                      (map (\<lambda>i. length (leading_whitespace (lines v ! i))) ne),
                      (ign @ [False]) @ map (\<lambda>i. lines v ! i = []) ts))"
            using True it touched empty ne lb False "1.prems"
            by (intro "1.IH"(2) [OF True]) (auto simp: Let_def)
          ultimately show ?thesis using touched ne upt False by (simp add: Let_def)
        qed
      qed
    qed
  qed
qed


lemma fst_mark_after_erase_in_line:
  "j \<le> k \<Longrightarrow> fst (mark_after_erase (i, j) (i, k) m) = fst m"
  by (auto simp: mark_after_erase_def iter_le_def iter_less_def)

lemma marks_erase_in_line:
  assumes "j \<le> k"
  shows "fst (insert_mark (erase v (i, j) (i, k))) = fst (insert_mark v)"
    and "fst (selection_bound (erase v (i, j) (i, k))) = fst (selection_bound v)"
  using assms
  by (auto simp: erase_def Let_def iter_le_def iter_less_def fst_mark_after_erase_in_line)

lemma shift_tab_erase_result:
  assumes "line_end < length (lines v)" "line_start \<le> line_nr"
    and "line_nr \<le> line_end \<longrightarrow> get_has_selection v = hs"
    and "line_nr < line_end \<longrightarrow> fst (insert_mark v) \<noteq> fst (selection_bound v)"
    and "\<forall>i. line_nr \<le> i \<and> i \<le> line_end \<and> (\<not> hs \<or> (i, 0) \<noteq> se) \<longrightarrow>
           i - line_start < length ign \<and> ign ! (i - line_start) = (lines v ! i = [])"
    and "\<forall>i. line_nr \<le> i \<and> i \<le> line_end \<and> (\<not> hs \<or> (i, 0) \<noteq> se) \<and> lines v ! i \<noteq> [] \<longrightarrow>
           k \<le> length (lines v ! i)"
  shows "\<exists>v'. shift_tab_erase v se line_start line_nr line_end k ign = Inr v' \<and>
           lines v' = map (\<lambda>i. if line_nr \<le> i \<and> i \<le> line_end \<and> (\<not> hs \<or> (i, 0) \<noteq> se)
                                  \<and> lines v ! i \<noteq> []
                               then drop k (lines v ! i) else lines v ! i) [0..<length (lines v)]"
  using assms
proof (induction "Suc line_end - line_nr" arbitrary: v line_nr)
  case 0
  then have "\<not> line_nr \<le> line_end" by simp
  then show ?case
    by (subst shift_tab_erase.simps) (auto intro!: nth_equalityI)
next
  case (Suc n)
  then have True: "line_nr \<le> line_end" by simp
  then have lt: "line_nr < length (lines v)" using Suc.prems by simp
  have it: "get_iter_at_line (lines v) line_nr = (line_nr, 0)"
    using lt by (simp add: get_iter_at_line_def)
  have hs: "get_has_selection v = hs" using True Suc.prems by simp
  have same: "\<exists>v'. shift_tab_erase v se line_start (Suc line_nr) line_end k ign = Inr v' \<and>
       lines v' = map (\<lambda>i. if Suc line_nr \<le> i \<and> i \<le> line_end \<and> (\<not> hs \<or> (i, 0) \<noteq> se)
                              \<and> lines v ! i \<noteq> []
                           then drop k (lines v ! i) else lines v ! i) [0..<length (lines v)]"
    using Suc.prems Suc.hyps(2) hs by (intro Suc.hyps(1)) auto
  have skip: ?case
    if step: "shift_tab_erase v se line_start line_nr line_end k ign
          = shift_tab_erase v se line_start (Suc line_nr) line_end k ign"
      and un: "\<not> (\<not> hs \<or> (line_nr, 0) \<noteq> se) \<or> lines v ! line_nr = []"
  proof -
    obtain v' where v': "shift_tab_erase v se line_start (Suc line_nr) line_end k ign = Inr v'"
      "lines v' = map (\<lambda>i. if Suc line_nr \<le> i \<and> i \<le> line_end \<and> (\<not> hs \<or> (i, 0) \<noteq> se)
                                \<and> lines v ! i \<noteq> []
                             then drop k (lines v ! i) else lines v ! i) [0..<length (lines v)]"
      using same by blast
    have "lines v' = map (\<lambda>i. if line_nr \<le> i \<and> i \<le> line_end \<and> (\<not> hs \<or> (i, 0) \<noteq> se)
                                \<and> lines v ! i \<noteq> []
                             then drop k (lines v ! i) else lines v ! i) [0..<length (lines v)]"
      unfolding v'(2) using un
      by (intro map_cong refl) (auto simp: Suc_le_eq le_less)
    then show ?thesis using step v'(1) by simp
  qed
  show ?case
  proof (cases "\<not> hs \<or> (line_nr, 0) \<noteq> se")
    case untouched: False
    have "shift_tab_erase v se line_start line_nr line_end k ign
        = shift_tab_erase v se line_start (Suc line_nr) line_end k ign"
      using True it untouched hs by (subst shift_tab_erase.simps) simp
    then show ?thesis using untouched by (intro skip) auto
  next
    case touched: True
    then have ig: "line_nr - line_start < length ign"
        "ign ! (line_nr - line_start) = (lines v ! line_nr = [])"
      using Suc.prems True by auto
    show ?thesis
    proof (cases "lines v ! line_nr = []")
      case e: True
      have "shift_tab_erase v se line_start line_nr line_end k ign
          = shift_tab_erase v se line_start (Suc line_nr) line_end k ign"
        using True it touched hs ig e by (subst shift_tab_erase.simps) (auto simp: Let_def)
      then show ?thesis using e by (intro skip) auto
    next
      case ne: False
      then have kl: "k \<le> length (lines v ! line_nr)" using Suc.prems True touched by auto
      define w where "w = erase v (line_nr, 0) (line_nr, k)"
      have fw: "snd (forward_chars (lines v) k (line_nr, 0)) = (line_nr, k)"
        using snd_forward_chars_in_line [of line_nr "lines v" 0 k] lt kl by simp
      have lw: "lines w = (lines v)[line_nr := drop k (lines v ! line_nr)]"
        using lt by (simp add: w_def lines_erase_in_line)
      have step: "shift_tab_erase v se line_start line_nr line_end k ign
          = shift_tab_erase w se line_start (Suc line_nr) line_end k ign"
        using True it touched hs ig ne fw
        by (subst shift_tab_erase.simps) (auto simp: Let_def w_def)
      have mw: "fst (insert_mark w) = fst (insert_mark v)"
          "fst (selection_bound w) = fst (selection_bound v)"
        by (simp_all add: w_def marks_erase_in_line)
      have hsw: "Suc line_nr \<le> line_end \<longrightarrow> get_has_selection w = hs"
        using Suc.prems(4) hs mw by (auto simp: get_has_selection_def)
      have "\<exists>v'. shift_tab_erase w se line_start (Suc line_nr) line_end k ign = Inr v' \<and>
         lines v' = map (\<lambda>i. if Suc line_nr \<le> i \<and> i \<le> line_end \<and> (\<not> hs \<or> (i, 0) \<noteq> se)
                                \<and> lines w ! i \<noteq> []
                             then drop k (lines w ! i) else lines w ! i) [0..<length (lines w)]"
        using Suc.prems Suc.hyps(2) hsw mw lw by (intro Suc.hyps(1)) auto
      then obtain v' where v': "shift_tab_erase w se line_start (Suc line_nr) line_end k ign = Inr v'"
        "lines v' = map (\<lambda>i. if Suc line_nr \<le> i \<and> i \<le> line_end \<and> (\<not> hs \<or> (i, 0) \<noteq> se)
                                \<and> lines w ! i \<noteq> []
                             then drop k (lines w ! i) else lines w ! i) [0..<length (lines w)]"
        by blast
      have "lines v' = map (\<lambda>i. if line_nr \<le> i \<and> i \<le> line_end \<and> (\<not> hs \<or> (i, 0) \<noteq> se)
                                \<and> lines v ! i \<noteq> []
                             then drop k (lines v ! i) else lines v ! i) [0..<length (lines v)]"
        unfolding v'(2) lw using ne touched True lt
        by (auto simp: nth_list_update Suc_le_eq le_less intro!: map_cong)
      then show ?thesis using step v'(1) by simp
    qed
  qed
qed

lemma filter_range:
  assumes "c < n"
  shows "filter (\<lambda>i. a \<le> i \<and> i \<le> c \<and> P i) [0..<n] = filter P [a..<Suc c]"
proof (cases "a \<le> Suc c")
  case True
  let ?Q = "\<lambda>i. a \<le> i \<and> i \<le> c \<and> P i"
  have 1: "[0..<n] = [0..<Suc c] @ [Suc c..<n]"
    using upt_add_eq_append [of 0 "Suc c" "n - Suc c"] assms by simp
  have 2: "[0..<Suc c] = [0..<a] @ [a..<Suc c]"
    using upt_add_eq_append [of 0 a "Suc c - a"] True by simp
  have 3: "filter ?Q [0..<a] = []" by (simp add: filter_empty_conv)
  have 4: "filter ?Q [Suc c..<n] = []" by (simp add: filter_empty_conv)
  have 5: "filter ?Q [a..<Suc c] = filter P [a..<Suc c]"
    by (rule filter_cong) auto
  have "filter ?Q [0..<n] = filter ?Q [0..<a] @ filter ?Q [a..<Suc c] @ filter ?Q [Suc c..<n]"
    by (simp only: 1 2 filter_append append_assoc)
  then show ?thesis by (simp only: 3 4 5 append_Nil append_Nil2)
next
  case False
  then have "filter (\<lambda>i. a \<le> i \<and> i \<le> c \<and> P i) [0..<n] = []"
    by (simp add: filter_empty_conv)
  moreover have "[a..<Suc c] = []" using False by simp
  ultimately show ?thesis by simp
qed

lemma filter_all_but_last:
  assumes "\<forall>j. a \<le> j \<and> j < c \<longrightarrow> P j" "P i" "a \<le> i" "i \<le> c"
  shows "i - a < length (filter P [a..<Suc c]) \<and> filter P [a..<Suc c] ! (i - a) = i"
proof -
  have "a \<le> c" using assms by simp
  have f: "filter P [a..<c] = [a..<c]" using assms(1) by (auto simp: filter_id_conv)
  have "filter P [a..<Suc c] = [a..<c] @ (if P c then [c] else [])"
    using \<open>a \<le> c\<close> f by simp
  then show ?thesis using assms by (cases "i = c") (auto simp: nth_append)
qed

text \<open>
  C5. Shift-Tab with both marks at valid positions never throws. If a touched line that
  is not empty has no leading whitespace, the handler returns with the view as it was, but
  for the two markers of the user action in the undo history: no line changes, whatever
  the selection. Otherwise every touched line that is not empty loses its first
  \<open>outdent_steps\<close> characters, the same number for all, which is the minimum of the tab
  size and of the leading whitespace runs of these lines; the number is at most the
  leading whitespace of each such line, so only leading whitespace is removed, and every
  other line is unchanged.
\<close>

theorem basic_shift_tab_outdent:
  assumes "valid_iter (lines v) (insert_mark v)" "valid_iter (lines v) (selection_bound v)"
  shows "\<exists>v'. basic_shift_tab v = Inr v' \<and>
     (if outdent_aborts v
      then v' = v\<lparr>undo := undo v @ [Begin_user_action, End_user_action]\<rparr>
      else lines v' =
             map (\<lambda>i. if outdent_touched v i \<and> lines v ! i \<noteq> []
                       then drop (outdent_steps v) (lines v ! i) else lines v ! i)
               [0..<length (lines v)]
         \<and> list_all (\<lambda>i. outdent_steps v \<le> length (leading_whitespace (lines v ! i)))
              (outdent_lines v)
         \<and> outdent_steps v \<le> tab_size v)"
proof -
  define v1 where "v1 = begin_user_action v"
  define ss where "ss = fst (get_selection_bounds v)"
  define se where "se = snd (get_selection_bounds v)"
  define ls where "ls = get_line ss"
  define le where "le = get_line se"
  define hs where "hs = get_has_selection v"
  define n where "n = length (lines v)"
  define ts where "ts = filter (\<lambda>i. \<not> hs \<or> (i, 0) \<noteq> se) [ls..<Suc le]"
  define ne where "ne = filter (\<lambda>i. lines v ! i \<noteq> []) ts"
  have v1: "lines v1 = lines v" "get_has_selection v1 = hs"
      "get_selection_bounds v1 = get_selection_bounds v" "tab_size v1 = tab_size v"
      "insert_mark v1 = insert_mark v" "selection_bound v1 = selection_bound v"
    by (simp_all add: v1_def begin_user_action_def get_selection_bounds_def
        get_has_selection_def hs_def)
  have le_n: "le < n"
    using assms
    by (auto simp: le_def se_def get_selection_bounds_def valid_iter_def get_line_def n_def)
  have ls_le: "ls \<le> le"
    by (auto simp: ls_def le_def ss_def se_def get_selection_bounds_def get_line_def
        iter_le_def iter_less_def)
  have differ: "ls < le \<longrightarrow> fst (insert_mark v) \<noteq> fst (selection_bound v)"
    by (auto simp: ls_def le_def ss_def se_def get_selection_bounds_def get_line_def
        split: if_splits)
  have only_last: "\<forall>j. ls \<le> j \<and> j < le \<longrightarrow> (\<not> hs \<or> (j, 0) \<noteq> se)"
    by (auto simp: le_def get_line_def)
  have ol: "outdent_lines v = ne"
  proof -
    have "outdent_lines v
        = filter (\<lambda>i. ls \<le> i \<and> i \<le> le \<and> ((\<not> hs \<or> (i, 0) \<noteq> se) \<and> lines v ! i \<noteq> [])) [0..<n]"
      by (auto simp: outdent_lines_def outdent_touched_def ls_def le_def ss_def se_def hs_def
          n_def intro!: filter_cong)
    also have "\<dots> = filter (\<lambda>i. (\<not> hs \<or> (i, 0) \<noteq> se) \<and> lines v ! i \<noteq> []) [ls..<Suc le]"
      using le_n by (rule filter_range)
    also have "\<dots> = ne" unfolding ne_def ts_def filter_filter by (simp only: conj_commute)
    finally show ?thesis .
  qed
  have touched: "outdent_touched v i = (ls \<le> i \<and> i \<le> le \<and> (\<not> hs \<or> (i, 0) \<noteq> se))" for i
    by (auto simp: outdent_touched_def ls_def le_def ss_def se_def hs_def)
  have pre: "le < length (lines v1)" using le_n by (simp add: v1 n_def)
  note r = shift_tab_scan_result [OF pre, of se ls "tab_size v" "[]", unfolded Let_def v1(1,2)]
  have scan: "shift_tab_scan v1 se ls le (tab_size v) [] =
      (if outdent_aborts v then None
       else Some (outdent_steps v, map (\<lambda>i. lines v ! i = []) ts))"
    unfolding outdent_aborts_def outdent_steps_def ol ne_def ts_def
    using r by (simp only: foldl_min_foldr append_Nil)
  have bst: "basic_shift_tab v =
      (case shift_tab_scan v1 se ls le (tab_size v) [] of
         None \<Rightarrow> Inr (end_user_action v1)
       | Some (k, ign) \<Rightarrow> map_sum id end_user_action (shift_tab_erase v1 se ls ls le k ign))"
    unfolding basic_shift_tab_def Let_def v1_def [symmetric] v1 se_def ss_def ls_def le_def
    by (rule refl)
  show ?thesis
  proof (cases "outdent_aborts v")
    case True
    then show ?thesis
      using bst scan by (simp add: v1_def begin_user_action_def end_user_action_def)
  next
    case False
    define k where "k = outdent_steps v"
    define ign where "ign = map (\<lambda>i. lines v ! i = []) ts"
    have kmin: "k \<le> tab_size v" "\<forall>i\<in>set ne. k \<le> length (leading_whitespace (lines v ! i))"
      using foldr_min_le [of "map (\<lambda>i. length (leading_whitespace (lines v ! i))) ne" "tab_size v"]
      by (auto simp: k_def outdent_steps_def ol)
    have p5: "\<forall>i. ls \<le> i \<and> i \<le> le \<and> (\<not> hs \<or> (i, 0) \<noteq> se) \<longrightarrow>
           i - ls < length ign \<and> ign ! (i - ls) = (lines v1 ! i = [])"
    proof (intro allI impI)
      fix i assume i: "ls \<le> i \<and> i \<le> le \<and> (\<not> hs \<or> (i, 0) \<noteq> se)"
      then have "i - ls < length ts \<and> ts ! (i - ls) = i"
        unfolding ts_def using only_last
        by (intro filter_all_but_last [of ls le "\<lambda>i. \<not> hs \<or> (i, 0) \<noteq> se" i]) auto
      then show "i - ls < length ign \<and> ign ! (i - ls) = (lines v1 ! i = [])"
        by (simp add: ign_def v1)
    qed
    have p6: "\<forall>i. ls \<le> i \<and> i \<le> le \<and> (\<not> hs \<or> (i, 0) \<noteq> se) \<and> lines v1 ! i \<noteq> [] \<longrightarrow>
           k \<le> length (lines v1 ! i)"
    proof (intro allI impI)
      fix i assume i: "ls \<le> i \<and> i \<le> le \<and> (\<not> hs \<or> (i, 0) \<noteq> se) \<and> lines v1 ! i \<noteq> []"
      then have "i \<in> set ne" by (auto simp: ne_def ts_def v1)
      then have "k \<le> length (leading_whitespace (lines v ! i))" using kmin by blast
      then show "k \<le> length (lines v1 ! i)"
        using length_leading_whitespace [of "lines v ! i"] by (simp add: v1)
    qed
    have p3: "ls \<le> le \<longrightarrow> get_has_selection v1 = hs" by (simp add: v1)
    have p4: "ls < le \<longrightarrow> fst (insert_mark v1) \<noteq> fst (selection_bound v1)"
      using differ by (simp add: v1)
    obtain v' where v': "shift_tab_erase v1 se ls ls le k ign = Inr v'"
      "lines v' = map (\<lambda>i. if ls \<le> i \<and> i \<le> le \<and> (\<not> hs \<or> (i, 0) \<noteq> se) \<and> lines v1 ! i \<noteq> []
                          then drop k (lines v1 ! i) else lines v1 ! i) [0..<length (lines v1)]"
      using shift_tab_erase_result [OF pre le_refl p3 p4 p5 p6] by blast
    have "basic_shift_tab v = Inr (end_user_action v')"
      using bst scan False v'(1) by (simp add: k_def ign_def)
    moreover have "lines (end_user_action v') =
        map (\<lambda>i. if outdent_touched v i \<and> lines v ! i \<noteq> []
                  then drop (outdent_steps v) (lines v ! i) else lines v ! i)
          [0..<length (lines v)]"
      using v'(2) unfolding v1 k_def touched by (simp add: end_user_action_def)
    moreover have "list_all (\<lambda>i. outdent_steps v \<le> length (leading_whitespace (lines v ! i)))
              (outdent_lines v)"
      using kmin(2) unfolding ol k_def list_all_iff .
    ultimately show ?thesis using False kmin(1) unfolding k_def by simp
  qed
qed

definition outdent_example :: view where
  "outdent_example =
     \<lparr>lines = [''    a'', '''', ''   b'', ''  c'', ''d''], insert_mark = (0, 2),
      selection_bound = (4, 0), tab_char = SPACE, tab_size = 2,
      context_class = (\<lambda>_ _. False), is_bracket_language = False, language_id = None,
      file_path = ''f'', modified = False, undo = []\<rparr>"

definition outdent_abort_example :: view where
  "outdent_abort_example =
     \<lparr>lines = [''  a'', ''b'', ''  c''], insert_mark = (1, 1),
      selection_bound = (1, 0), tab_char = SPACE, tab_size = 2,
      context_class = (\<lambda>_ _. False), is_bracket_language = False, language_id = None,
      file_path = ''f'', modified = False, undo = []\<rparr>"

text \<open>
  The theorem at a selection from line 0 to the start of line 4, which is not touched:
  two characters go from the three lines with text. And at a selection inside the single
  line \<open>b\<close>, which has no leading whitespace: nothing changes.
\<close>

theorem basic_shift_tab_outdent_witness:
  "(\<exists>v'. basic_shift_tab outdent_example = Inr v' \<and>
       lines v' = [''  a'', '''', '' b'', ''c'', ''d'']) \<and>
   basic_shift_tab outdent_abort_example =
     Inr (outdent_abort_example\<lparr>undo := [Begin_user_action, End_user_action]\<rparr>)"
proof -
  have h1: "valid_iter (lines outdent_example) (insert_mark outdent_example)" by code_simp
  have h2: "valid_iter (lines outdent_example) (selection_bound outdent_example)" by code_simp
  have a: "outdent_aborts outdent_example = False" by code_simp
  have m: "map (\<lambda>i. if outdent_touched outdent_example i \<and> lines outdent_example ! i \<noteq> []
                    then drop (outdent_steps outdent_example) (lines outdent_example ! i)
                    else lines outdent_example ! i)
               [0..<length (lines outdent_example)] = [''  a'', '''', '' b'', ''c'', ''d'']"
    by code_simp
  have 1: "\<exists>v'. basic_shift_tab outdent_example = Inr v' \<and>
       lines v' = [''  a'', '''', '' b'', ''c'', ''d'']"
    using basic_shift_tab_outdent [OF h1 h2] unfolding a m by auto
  have h3: "valid_iter (lines outdent_abort_example) (insert_mark outdent_abort_example)"
    by code_simp
  have h4: "valid_iter (lines outdent_abort_example) (selection_bound outdent_abort_example)"
    by code_simp
  have b: "outdent_aborts outdent_abort_example = True" by code_simp
  have u: "undo outdent_abort_example = []" by (simp add: outdent_abort_example_def)
  have 2: "basic_shift_tab outdent_abort_example =
     Inr (outdent_abort_example\<lparr>undo := [Begin_user_action, End_user_action]\<rparr>)"
    using basic_shift_tab_outdent [OF h3 h4] unfolding b u by auto
  show ?thesis using 1 2 by blast
qed

section \<open>Smart Backspace\<close>

text \<open>
  The handlers of \<^verbatim>\<open>on_key_press_event_basic\<close> that do not return pass the key on:
  \<^verbatim>\<open>gdk_keyval_to_unicode\<close> of BackSpace is 8 and that of Return is 13, both below 32,
  so the insertion of a printable character is skipped and the key reaches
  \<^verbatim>\<open>Gsv::View::on_key_press_event\<close>, GTK's own handler. GTK's binding for
  BackSpace deletes the selection, or else the character in front of the cursor; its
  binding for Return replaces the selection by a newline.
\<close>

definition gtk_backspace :: "view \<Rightarrow> view" where
  "gtk_backspace v =
     (if get_has_selection v
      then erase v (fst (get_selection_bounds v)) (snd (get_selection_bounds v))
      else if fst (backward_char (lines v) (insert_mark v))
      then erase v (snd (backward_char (lines v) (insert_mark v))) (insert_mark v)
      else v)"

definition gtk_return :: "view \<Rightarrow> view" where
  "gtk_return v =
     (let v = (if get_has_selection v
               then erase v (fst (get_selection_bounds v)) (snd (get_selection_bounds v))
               else v)
      in insert_at_cursor v [NL])"

text \<open>
  The BackSpace branch of \<^verbatim>\<open>on_key_press_event_basic\<close>, taken for any state of the
  modifier keys. With a selection the branch is skipped and the key goes to GTK.
\<close>

definition basic_backspace :: "view \<Rightarrow> view" where
  "basic_backspace v =
     (let v = begin_user_action v;
          iter = insert_mark v;
          v = (if \<not> get_has_selection v then
                 (let line = get_line_before (lines v) (insert_mark v);
                      do_smart_backspace = list_all (\<lambda>chr. \<not> (chr \<noteq> SPACE \<and> chr \<noteq> TAB)) line
                  in if do_smart_backspace
                     then (let line_start_iter = backward_chars (lines v) (length line) iter
                           in if fst line_start_iter then erase v iter (snd line_start_iter)
                              else v)
                     else v)
               else v)
      in end_user_action (gtk_backspace v))"

lemma backward_steps_in_line:
  "k \<le> j \<Longrightarrow> backward_steps b k (i, j) = (i, j - k)"
  by (induction k arbitrary: j) (auto simp: backward_char_def)

lemma get_line_before_col:
  assumes "i < length b"
  shows "get_line_before b (i, j) = take j (b ! i)"
  using assms
  by (simp add: get_line_before_def get_text_in_line_def get_line_def get_iter_at_line_def)

text \<open>
  C8, as amended. Backspace with no selection, the cursor at \<open>(i, j)\<close> and only spaces and
  tabs between the start of the line and the cursor: the handler erases the \<open>j\<close>
  characters in one \<^verbatim>\<open>erase\<close>, and then GTK's own Backspace, reached in the same user
  action, deletes the line break in front of the line, so the rest of line \<open>i\<close> is joined
  to line \<open>i - 1\<close>. On the first line of the buffer only the whitespace goes.
\<close>

theorem basic_backspace_whitespace:
  assumes "valid_iter (lines v) (insert_mark v)" "\<not> get_has_selection v"
    and "insert_mark v = (i, j)"
    and "list_all (\<lambda>c. c = SPACE \<or> c = TAB) (take j (lines v ! i))"
  shows "lines (basic_backspace v) =
           (if i = 0 then (lines v)[0 := drop j (lines v ! 0)]
            else take (i - 1) (lines v) @ [lines v ! (i - 1) @ drop j (lines v ! i)]
                   @ drop (Suc i) (lines v))
       \<and> undo (basic_backspace v) =
           undo v @ [Begin_user_action] @ (if j = 0 then [] else [Erased (i, 0) (i, j)])
             @ (if i = 0 then [] else [Erased (i - 1, length (lines v ! (i - 1))) (i, 0)])
             @ [End_user_action]
       \<and> insert_mark (basic_backspace v) =
           (if i = 0 then (0, 0) else (i - 1, length (lines v ! (i - 1))))"
proof -
  define b where "b = lines v"
  have il: "i < length b" and jl: "j \<le> length (b ! i)"
    using assms(1,3) by (auto simp: valid_iter_def b_def)
  define v1 where "v1 = begin_user_action v"
  have v1: "lines v1 = b" "insert_mark v1 = (i, j)" "selection_bound v1 = (i, j)"
      "undo v1 = undo v @ [Begin_user_action]" "\<not> get_has_selection v1"
    using assms(2,3) by (auto simp: v1_def begin_user_action_def b_def get_has_selection_def)
  define v2 where "v2 = (if j = 0 then v1 else erase v1 (i, j) (i, 0))"
  have smart: "list_all (\<lambda>chr. \<not> (chr \<noteq> SPACE \<and> chr \<noteq> TAB)) (take j (b ! i))"
    using assms(4) by (simp add: b_def list_all_iff)
  have bc: "backward_chars b (length (take j (b ! i))) (i, j) = (j \<noteq> 0, (i, 0))"
    using jl backward_steps_in_line [of j j b i]
    by (auto simp: backward_chars_def buffer_begin_def min_def)
  have bb: "basic_backspace v = end_user_action (gtk_backspace v2)"
    using il smart bc
    by (simp add: basic_backspace_def Let_def v1_def [symmetric] v1 get_line_before_col v2_def)
  have v2: "lines v2 = b[i := drop j (b ! i)]" "insert_mark v2 = (i, 0)"
      "selection_bound v2 = (i, 0)"
      "undo v2 = undo v @ [Begin_user_action] @ (if j = 0 then [] else [Erased (i, 0) (i, j)])"
    using il v1
    by (auto simp: v2_def erase_def Let_def iter_le_def iter_less_def erase_text_in_line
        mark_after_erase_def)
  show ?thesis
  proof (cases "i = 0")
    case True
    have "gtk_backspace v2 = v2"
      using v2 True by (simp add: gtk_backspace_def get_has_selection_def backward_char_def)
    then show ?thesis using bb v2 True by (simp add: end_user_action_def b_def)
  next
    case False
    define p where "p = (i - 1, length (b ! (i - 1)))"
    have bk: "backward_char (lines v2) (i, 0) = (True, p)"
      using False il by (simp add: backward_char_def v2 p_def)
    have g: "gtk_backspace v2 = erase v2 p (i, 0)"
      using v2 bk by (simp add: gtk_backspace_def get_has_selection_def)
    have le: "iter_le p (i, 0)" using False by (simp add: iter_le_def iter_less_def p_def)
    have m: "mark_after_erase p (i, 0) (i, 0) = p"
      using False by (auto simp: mark_after_erase_def iter_le_def iter_less_def p_def)
    have t: "erase_text (lines v2) p (i, 0) =
        take (i - 1) b @ [b ! (i - 1) @ drop j (b ! i)] @ drop (Suc i) b"
      using False il by (simp add: erase_text_def v2 p_def)
    have e: "erase v2 p (i, 0) =
        v2\<lparr>lines := take (i - 1) b @ [b ! (i - 1) @ drop j (b ! i)] @ drop (Suc i) b,
          insert_mark := p, selection_bound := p, modified := True,
          undo := undo v2 @ [Erased p (i, 0)]\<rparr>"
    proof -
      have "p \<noteq> (i, 0)" using False by (auto simp: p_def)
      then show ?thesis using le m t v2(2,3) by (simp add: erase_def Let_def)
    qed
    have "lines (basic_backspace v) =
        take (i - 1) b @ [b ! (i - 1) @ drop j (b ! i)] @ drop (Suc i) b"
      unfolding bb g e by (simp add: end_user_action_def)
    moreover have "undo (basic_backspace v) = undo v2 @ [Erased p (i, 0)] @ [End_user_action]"
      unfolding bb g e by (simp add: end_user_action_def)
    moreover have "insert_mark (basic_backspace v) = p"
      unfolding bb g e by (simp add: end_user_action_def)
    ultimately show ?thesis using False v2(4) by (simp add: b_def p_def)
  qed
qed

definition backspace_example :: view where
  "backspace_example =
     \<lparr>lines = [''a'', ''   ''], insert_mark = (1, 3), selection_bound = (1, 3),
      tab_char = SPACE, tab_size = 2, context_class = (\<lambda>_ _. False),
      is_bracket_language = False, language_id = None, file_path = ''f'', modified = False,
      undo = []\<rparr>"

text \<open>
  The theorem on the line of exactly three spaces below the line \<open>a\<close>: the two lines
  become the one line \<open>a\<close>, by two erasures in one user action.
\<close>

theorem basic_backspace_whitespace_witness:
  "lines (basic_backspace backspace_example) = [''a''] \<and>
   undo (basic_backspace backspace_example) =
     [Begin_user_action, Erased (1, 0) (1, 3), Erased (0, 1) (1, 0), End_user_action]"
proof -
  have h1: "valid_iter (lines backspace_example) (insert_mark backspace_example)" by code_simp
  have h2: "\<not> get_has_selection backspace_example" by code_simp
  have h3: "insert_mark backspace_example = (1, 3)" by code_simp
  have h4: "list_all (\<lambda>c. c = SPACE \<or> c = TAB) (take 3 (lines backspace_example ! 1))"
    by code_simp
  show ?thesis
    using basic_backspace_whitespace [OF h1 h2 h3 h4] by (simp add: backspace_example_def)
qed

text \<open>
  The claim as stated fails there: the keystroke removes more than the three spaces, the
  buffer does not become the line \<open>a\<close> followed by an empty line.
\<close>

theorem basic_backspace_counterexample:
  "lines (basic_backspace backspace_example) \<noteq> (lines backspace_example)[1 := []]
   \<and> lines (basic_backspace backspace_example) = [''a'']"
  by code_simp

section \<open>Paste\<close>

text \<open>
  \<^verbatim>\<open>Source::View::paste\<close>. The clipboard text is a parameter. Indices and counts are
  \<^verbatim>\<open>size_t\<close>: \<open>SIZE_MAX\<close> is the value of \<^verbatim>\<open>static_cast<size_t>(-1)\<close>, and a
  subtraction wraps around. \<^verbatim>\<open>std::string::substr\<close> throws for a position behind the
  end of the string, the result \<open>None\<close> of the model.
\<close>

abbreviation CR :: char where "CR \<equiv> CHR 0x0D"

definition SIZE_MAX :: nat where
  "SIZE_MAX = 2 ^ 64 - 1"

definition size_t_sub :: "nat \<Rightarrow> nat \<Rightarrow> nat" where
  "size_t_sub x y = (if y \<le> x then x - y else x + 2 ^ 64 - y)"

definition substr :: "string \<Rightarrow> nat \<Rightarrow> nat \<Rightarrow> string option" where
  "substr s pos len = (if length s < pos then None else Some (take len (drop pos s)))"

text \<open>The first loop replaces every carriage return, with a newline that follows it, by one newline.\<close>

fun replace_carriage_returns :: "string \<Rightarrow> string" where
  "replace_carriage_returns [] = []"
| "replace_carriage_returns [c] = (if c = CR then [NL] else [c])"
| "replace_carriage_returns (c # d # cs) =
     (if c = CR then
        (if d = NL then NL # replace_carriage_returns cs
         else NL # replace_carriage_returns (d # cs))
      else c # replace_carriage_returns (d # cs))"

text \<open>
  The inner loops count the leading tab characters of a pasted line; the second component
  is \<^verbatim>\<open>empty_line\<close>, true when the line has no other character.
\<close>

fun count_tabs :: "char \<Rightarrow> string \<Rightarrow> nat \<times> bool" where
  "count_tabs t [] = (0, True)"
| "count_tabs t (chr # line) =
     (if chr = t then (Suc (fst (count_tabs t line)), snd (count_tabs t line))
      else (0, False))"

text \<open>
  One iteration of the measuring loop at index \<open>c\<close>. The state is \<^verbatim>\<open>start_line\<close>,
  \<^verbatim>\<open>end_line\<close>, \<^verbatim>\<open>first_paste_line\<close>, \<^verbatim>\<open>paste_line_tabs\<close> and
  \<^verbatim>\<open>first_paste_line_has_tabs\<close>; \<^verbatim>\<open>paste_line\<close> is false at the head of every
  iteration.
\<close>

definition paste_measure_step ::
  "char \<Rightarrow> string \<Rightarrow> nat \<Rightarrow> nat \<times> nat \<times> bool \<times> nat \<times> bool
     \<Rightarrow> (nat \<times> nat \<times> bool \<times> nat \<times> bool) option" where
  "paste_measure_step t text c st =
     (case st of (start_line, end_line, first_paste_line, paste_line_tabs, has_tabs) \<Rightarrow>
        (let end_line = (if text ! c = NL then c
                         else if c = length text - 1 then c + 1 else end_line);
             paste_line = (text ! c = NL \<or> c = length text - 1)
         in if paste_line then
              (case substr text start_line (size_t_sub end_line start_line) of
                 None \<Rightarrow> None
               | Some line \<Rightarrow>
                   (let tabs = fst (count_tabs t line);
                        empty_line = snd (count_tabs t line)
                    in if first_paste_line
                       then (if tabs \<noteq> 0
                             then Some (end_line + 1, end_line, False, tabs, True)
                             else Some (end_line + 1, end_line, False, paste_line_tabs, has_tabs))
                       else if \<not> empty_line
                       then Some (end_line + 1, end_line, False, min paste_line_tabs tabs, has_tabs)
                       else Some (end_line + 1, end_line, False, paste_line_tabs, has_tabs)))
            else Some (start_line, end_line, first_paste_line, paste_line_tabs, has_tabs)))"

function paste_measure ::
  "char \<Rightarrow> string \<Rightarrow> nat \<Rightarrow> nat \<times> nat \<times> bool \<times> nat \<times> bool
     \<Rightarrow> (nat \<times> nat \<times> bool \<times> nat \<times> bool) option" where
  "paste_measure t text c st =
     (if c < length text then
        (case paste_measure_step t text c st of
           None \<Rightarrow> None
         | Some st' \<Rightarrow> paste_measure t text (Suc c) st')
      else Some st)"
  by pat_completeness auto
termination
  by (relation "measure (\<lambda>(t, text, c, st). length text - c)") auto

declare paste_measure.simps [simp del]

text \<open>
  One iteration of the inserting loop, with the state \<^verbatim>\<open>start_line\<close>,
  \<^verbatim>\<open>end_line\<close> and \<^verbatim>\<open>first_paste_line\<close> and the view.
\<close>

definition paste_insert_step ::
  "string \<Rightarrow> string \<Rightarrow> nat \<Rightarrow> bool \<Rightarrow> nat \<Rightarrow> (nat \<times> nat \<times> bool) \<times> view
     \<Rightarrow> ((nat \<times> nat \<times> bool) \<times> view) option" where
  "paste_insert_step text prefix_tabs paste_line_tabs has_tabs c stv =
     (case stv of ((start_line, end_line, first_paste_line), v) \<Rightarrow>
        (let end_line = (if text ! c = NL then c
                         else if c = length text - 1 then c + 1 else end_line);
             paste_line = (text ! c = NL \<or> c = length text - 1)
         in if paste_line then
              (case substr text start_line (size_t_sub end_line start_line) of
                 None \<Rightarrow> None
               | Some line \<Rightarrow>
                   (let line_tabs = fst (count_tabs (tab_char v) line);
                        tabs = (if \<not> (first_paste_line \<and> \<not> has_tabs) \<and> line_tabs < paste_line_tabs
                                then line_tabs else paste_line_tabs)
                    in if first_paste_line then
                         (case (if has_tabs
                                then substr text (start_line + tabs)
                                       (size_t_sub (size_t_sub end_line start_line) tabs)
                                else substr text start_line (size_t_sub end_line start_line)) of
                            None \<Rightarrow> None
                          | Some s \<Rightarrow>
                              Some ((end_line + 1, end_line, False), insert_at_cursor v s))
                       else
                         (case substr text (start_line + tabs)
                                 (size_t_sub (size_t_sub end_line start_line) tabs) of
                            None \<Rightarrow> None
                          | Some s \<Rightarrow>
                              Some ((end_line + 1, end_line, False),
                                    insert_at_cursor v (NL # prefix_tabs @ s)))))
            else Some ((start_line, end_line, first_paste_line), v)))"

function paste_insert ::
  "string \<Rightarrow> string \<Rightarrow> nat \<Rightarrow> bool \<Rightarrow> nat \<Rightarrow> (nat \<times> nat \<times> bool) \<times> view
     \<Rightarrow> ((nat \<times> nat \<times> bool) \<times> view) option" where
  "paste_insert text prefix_tabs paste_line_tabs has_tabs c stv =
     (if c < length text then
        (case paste_insert_step text prefix_tabs paste_line_tabs has_tabs c stv of
           None \<Rightarrow> None
         | Some stv' \<Rightarrow> paste_insert text prefix_tabs paste_line_tabs has_tabs (Suc c) stv')
      else Some stv)"
  by pat_completeness auto
termination
  by (relation "measure (\<lambda>(text, p, plt, ht, c, stv). length text - c)") auto

declare paste_insert.simps [simp del]

text \<open>
  \<^verbatim>\<open>paste_clipboard\<close> of GTK, the other branch of \<^verbatim>\<open>paste\<close>: the text replaces
  the selection, or is inserted at the cursor.
\<close>

definition gtk_paste_clipboard :: "view \<Rightarrow> string \<Rightarrow> view" where
  "gtk_paste_clipboard v text =
     (let v = (if get_has_selection v
               then erase v (fst (get_selection_bounds v)) (snd (get_selection_bounds v))
               else v)
      in insert_at_cursor v text)"

definition paste :: "view \<Rightarrow> string \<Rightarrow> view option" where
  "paste v clipboard =
     (let text = replace_carriage_returns clipboard;
          tabs_end_iter = get_tabs_end_iter (lines v) (get_line (insert_mark v))
      in if \<not> get_has_selection v \<and> ends_line (lines v) tabs_end_iter then
           (let prefix_tabs = get_line_before (lines v) tabs_end_iter
            in case paste_measure (tab_char v) text 0 (0, 0, True, SIZE_MAX, False) of
                 None \<Rightarrow> None
               | Some (start_line, end_line, first_paste_line, paste_line_tabs, has_tabs) \<Rightarrow>
                   (let paste_line_tabs = (if paste_line_tabs = SIZE_MAX then 0 else paste_line_tabs)
                    in case paste_insert text prefix_tabs paste_line_tabs has_tabs 0
                              ((0, 0, True), begin_user_action v) of
                         None \<Rightarrow> None
                       | Some (st, v) \<Rightarrow> Some (end_user_action (place_cursor v (insert_mark v)))))
         else Some (gtk_paste_clipboard v text))"

text \<open>The text of the buffer from an iterator to the end of the buffer.\<close>

definition text_from :: "buffer \<Rightarrow> iter \<Rightarrow> string" where
  "text_from b it = join_lines (drop (snd it) (b ! fst it) # drop (Suc (fst it)) b)"

text \<open>
  The view of claim C4: tab style, no selection, one line of two tabs and the cursor
  behind them. The pasted text is \<open>a\<close>, newline, tab, \<open>b\<close>, newline, tab, \<open>c\<close>.
\<close>

definition paste_example :: view where
  "paste_example =
     \<lparr>lines = [[TAB, TAB]], insert_mark = (0, 2), selection_bound = (0, 2),
      tab_char = TAB, tab_size = 1, context_class = (\<lambda>_ _. False),
      is_bracket_language = True, language_id = None, file_path = ''f'', modified = False,
      undo = []\<rparr>"

definition paste_example_text :: string where
  "paste_example_text = [CHR ''a'', NL, TAB, CHR ''b'', NL, TAB, CHR ''c'']"

lemmas paste_eval =
  paste_def paste_example_def paste_example_text_def Let_def get_tabs_end_iter_def
  get_iter_at_line_def get_line_def tabs_end_forward.simps get_char_def ends_line_def
  forward_char_def is_end_def buffer_end_def get_has_selection_def get_line_before_def
  get_text_in_line_def paste_measure.simps paste_measure_step_def substr_def size_t_sub_def
  SIZE_MAX_def paste_insert.simps paste_insert_step_def insert_at_cursor_def insert_at_def
  insert_text_def mark_after_insert_def iter_less_def begin_user_action_def
  end_user_action_def place_cursor_def text_from_def

text \<open>
  C4, as amended. The paste yields \<open>a\<close>, newline, two tabs, \<open>b\<close>, newline, two tabs,
  \<open>c\<close> at the paste site: the common indent of one tab is stripped from lines 2 and 3 and
  the two tabs of the destination line are put in front of them, the first line is
  inserted as it is. The cursor ends behind the \<open>c\<close>, and the insertions are one user
  action.
\<close>

theorem paste_reindents_example:
  "map_option (\<lambda>v. text_from (lines v) (0, 2)) (paste paste_example paste_example_text)
     = Some [CHR ''a'', NL, TAB, TAB, CHR ''b'', NL, TAB, TAB, CHR ''c'']
   \<and> map_option lines (paste paste_example paste_example_text)
     = Some [[TAB, TAB, CHR ''a''], [TAB, TAB, CHR ''b''], [TAB, TAB, CHR ''c'']]
   \<and> map_option insert_mark (paste paste_example paste_example_text) = Some (2, 3)
   \<and> map_option undo (paste paste_example paste_example_text)
     = Some [Begin_user_action, Inserted (0, 2) ''a'',
             Inserted (0, 3) [NL, TAB, TAB, CHR ''b''],
             Inserted (1, 3) [NL, TAB, TAB, CHR ''c''], End_user_action]"
  by (simp add: paste_eval)

text \<open>
  The text the claim states, with three tabs in front of \<open>b\<close> and of \<open>c\<close>, is not what
  the paste yields.
\<close>

theorem paste_reindents_counterexample:
  "map_option (\<lambda>v. text_from (lines v) (0, 2)) (paste paste_example paste_example_text)
     \<noteq> Some [CHR ''a'', NL, TAB, TAB, TAB, CHR ''b'', NL, TAB, TAB, TAB, CHR ''c'']"
  by (simp add: paste_eval)

section \<open>The structural scanner\<close>

text \<open>
  The scans of \<^verbatim>\<open>Source::View\<close> keep their bracket balance in local variables: two
  counters and the char-literal flag in the scans for parentheses and square brackets, one
  counter and the flag in the scans for braces. The counters are C integers; the model
  counts in unbounded integers, which agree for buffers of fewer than \<open>2^31\<close> characters.
\<close>

record balance =
  count1 :: int
  count2 :: int
  ignore :: bool

record nesting =
  count :: int
  ignoring :: bool

text \<open>
  The test of the four scans on a single quote: \<^verbatim>\<open>before_iter\<close> and
  \<^verbatim>\<open>before_before_iter\<close> are the results of \<^verbatim>\<open>backward_char\<close>, which stays at
  the start of the buffer.
\<close>

definition toggles_ignore :: "buffer \<Rightarrow> iter \<Rightarrow> bool" where
  "toggles_ignore b iter =
     (let before_iter = snd (backward_char b iter);
          before_before_iter = snd (backward_char b before_iter)
      in get_char b before_iter \<noteq> BACKSLASH \<or> get_char b before_before_iter = BACKSLASH)"

definition is_code :: "view \<Rightarrow> iter \<Rightarrow> bool" where
  "is_code v iter =
     (\<not> context_class v iter ''comment'' \<and> \<not> context_class v iter ''string'')"

text \<open>
  The body of the loops of \<^verbatim>\<open>find_start_of_closed_expression\<close> and
  \<^verbatim>\<open>find_open_expression_symbol\<close> up to their exit tests: the source has the same
  text in both.
\<close>

definition paren_step :: "view \<Rightarrow> iter \<Rightarrow> balance \<Rightarrow> balance" where
  "paren_step v iter st =
     (if is_code v iter then
        (if get_char (lines v) iter = QUOTE then
           (if toggles_ignore (lines v) iter then st\<lparr>ignore := \<not> ignore st\<rparr> else st)
         else if \<not> ignore st then
           (if get_char (lines v) iter = CHR '')'' then st\<lparr>count1 := count1 st + 1\<rparr>
            else if get_char (lines v) iter = CHR '']'' then st\<lparr>count2 := count2 st + 1\<rparr>
            else if get_char (lines v) iter = CHR ''('' then st\<lparr>count1 := count1 st - 1\<rparr>
            else if get_char (lines v) iter = CHR ''['' then st\<lparr>count2 := count2 st - 1\<rparr>
            else st)
         else st)
      else st)"

text \<open>
  The loop at the end of \<^verbatim>\<open>find_start_of_closed_expression\<close>, which moves the found
  iterator over tab characters, not past the cursor.
\<close>

function skip_tab_chars :: "view \<Rightarrow> iter \<Rightarrow> iter" where
  "skip_tab_chars v iter =
     (if iter \<noteq> insert_mark v \<and> get_char (lines v) iter = tab_char v
      then (if fst (forward_char (lines v) iter)
            then skip_tab_chars v (snd (forward_char (lines v) iter))
            else snd (forward_char (lines v) iter))
      else iter)"
  by pat_completeness auto
termination
  by (relation "measures [\<lambda>(v, it). length (lines v) - fst it,
                          \<lambda>(v, it). length (lines v ! fst it) - snd it]")
     (auto simp: forward_char_def split: if_splits)

declare skip_tab_chars.simps [simp del]

function find_start_loop :: "view \<Rightarrow> iter \<Rightarrow> balance \<Rightarrow> iter option" where
  "find_start_loop v iter st =
     (let st = paren_step v iter st
      in if starts_line iter \<and> count1 st \<le> 0 \<and> count2 st \<le> 0
         then Some (skip_tab_chars v iter)
         else if fst (backward_char (lines v) iter)
         then find_start_loop v (snd (backward_char (lines v) iter)) st
         else None)"
  by pat_completeness auto
termination
  by (relation "measures [\<lambda>(v, it, st). fst it, \<lambda>(v, it, st). snd it]")
     (auto simp: backward_char_def split: if_splits)

declare find_start_loop.simps [simp del]

text \<open>
  \<^verbatim>\<open>find_start_of_closed_expression\<close>: \<open>Some\<close> of \<^verbatim>\<open>found_iter\<close> when the source
  returns true, \<open>None\<close> when it returns false.
\<close>

definition find_start_of_closed_expression :: "view \<Rightarrow> iter \<Rightarrow> iter option" where
  "find_start_of_closed_expression v iter =
     find_start_loop v iter \<lparr>count1 = 0, count2 = 0, ignore = False\<rparr>"

function find_open_loop :: "view \<Rightarrow> iter \<Rightarrow> iter \<Rightarrow> balance \<Rightarrow> iter option" where
  "find_open_loop v iter until_iter st =
     (if iter \<noteq> until_iter \<and> fst (backward_char (lines v) iter) then
        (let iter = snd (backward_char (lines v) iter) in
         if is_code v iter then
           (let st = paren_step v iter st
            in if count1 st < 0 \<or> count2 st < 0 then Some iter
               else find_open_loop v iter until_iter st)
         else find_open_loop v iter until_iter st)
      else None)"
  by pat_completeness auto
termination
  by (relation "measures [\<lambda>(v, it, u, st). fst it, \<lambda>(v, it, u, st). snd it]")
     (auto simp: backward_char_def split: if_splits)

declare find_open_loop.simps [simp del]

definition find_open_expression_symbol :: "view \<Rightarrow> iter \<Rightarrow> iter \<Rightarrow> iter option" where
  "find_open_expression_symbol v iter until_iter =
     find_open_loop v iter until_iter \<lparr>count1 = 0, count2 = 0, ignore = False\<rparr>"

text \<open>
  The bodies of the loops of \<^verbatim>\<open>find_right_bracket_forward\<close> and
  \<^verbatim>\<open>find_left_bracket_backward\<close>: \<open>Inl\<close> is the return of the found iterator,
  \<open>Inr\<close> the state for the next iteration.
\<close>

definition right_bracket_step :: "view \<Rightarrow> iter \<Rightarrow> nesting \<Rightarrow> iter + nesting" where
  "right_bracket_step v iter st =
     (if is_code v iter then
        (if get_char (lines v) iter = QUOTE then
           (if toggles_ignore (lines v) iter then Inr (st\<lparr>ignoring := \<not> ignoring st\<rparr>)
            else Inr st)
         else if \<not> ignoring st then
           (if get_char (lines v) iter = CHR ''}'' then
              (if count st = 0 then Inl iter else Inr (st\<lparr>count := count st - 1\<rparr>))
            else if get_char (lines v) iter = CHR ''{'' then Inr (st\<lparr>count := count st + 1\<rparr>)
            else Inr st)
         else Inr st)
      else Inr st)"

definition left_bracket_step :: "view \<Rightarrow> iter \<Rightarrow> nesting \<Rightarrow> iter + nesting" where
  "left_bracket_step v iter st =
     (if is_code v iter then
        (if get_char (lines v) iter = QUOTE then
           (if toggles_ignore (lines v) iter then Inr (st\<lparr>ignoring := \<not> ignoring st\<rparr>)
            else Inr st)
         else if \<not> ignoring st then
           (if get_char (lines v) iter = CHR ''{'' then
              (if count st = 0 then Inl iter else Inr (st\<lparr>count := count st - 1\<rparr>))
            else if get_char (lines v) iter = CHR ''}'' then Inr (st\<lparr>count := count st + 1\<rparr>)
            else Inr st)
         else Inr st)
      else Inr st)"

function right_bracket_loop :: "view \<Rightarrow> iter \<Rightarrow> nesting \<Rightarrow> iter option" where
  "right_bracket_loop v iter st =
     (if fst (forward_char (lines v) iter) then
        (case right_bracket_step v (snd (forward_char (lines v) iter)) st of
           Inl found_iter \<Rightarrow> Some found_iter
         | Inr st' \<Rightarrow> right_bracket_loop v (snd (forward_char (lines v) iter)) st')
      else None)"
  by pat_completeness auto
termination
  by (relation "measures [\<lambda>(v, it, st). length (lines v) - fst it,
                          \<lambda>(v, it, st). length (lines v ! fst it) - snd it]")
     (auto simp: forward_char_def split: if_splits)

declare right_bracket_loop.simps [simp del]

definition find_right_bracket_forward :: "view \<Rightarrow> iter \<Rightarrow> iter option" where
  "find_right_bracket_forward v iter = right_bracket_loop v iter \<lparr>count = 0, ignoring = False\<rparr>"

function left_bracket_loop :: "view \<Rightarrow> iter \<Rightarrow> nesting \<Rightarrow> iter option" where
  "left_bracket_loop v iter st =
     (if fst (backward_char (lines v) iter) then
        (case left_bracket_step v (snd (backward_char (lines v) iter)) st of
           Inl found_iter \<Rightarrow> Some found_iter
         | Inr st' \<Rightarrow> left_bracket_loop v (snd (backward_char (lines v) iter)) st')
      else None)"
  by pat_completeness auto
termination
  by (relation "measures [\<lambda>(v, it, st). fst it, \<lambda>(v, it, st). snd it]")
     (auto simp: backward_char_def split: if_splits)

declare left_bracket_loop.simps [simp del]

definition find_left_bracket_backward :: "view \<Rightarrow> iter \<Rightarrow> iter option" where
  "find_left_bracket_backward v iter = left_bracket_loop v iter \<lparr>count = 0, ignoring = False\<rparr>"

section \<open>Claims about the structural scanner\<close>

text \<open>
  The words of the claims about \<^verbatim>\<open>find_start_of_closed_expression\<close>: the positions of
  a backward scan in scan order, from the starting position to the start of the buffer,
  and the counters after each of them.
\<close>

function backward_positions :: "buffer \<Rightarrow> iter \<Rightarrow> iter list" where
  "backward_positions b it =
     it # (if fst (backward_char b it) then backward_positions b (snd (backward_char b it))
           else [])"
  by pat_completeness auto
termination
  by (relation "measures [\<lambda>(b, it). fst it, \<lambda>(b, it). snd it]")
     (auto simp: backward_char_def split: if_splits)

declare backward_positions.simps [simp del]

primrec balances :: "view \<Rightarrow> balance \<Rightarrow> iter list \<Rightarrow> balance list" where
  "balances v st [] = []"
| "balances v st (p # ps) = paren_step v p st # balances v (paren_step v p st) ps"

definition closed_at :: "iter \<times> balance \<Rightarrow> bool" where
  "closed_at x = (starts_line (fst x) \<and> count1 (snd x) \<le> 0 \<and> count2 (snd x) \<le> 0)"

text \<open>
  The words of the claim about the returned position: the run of tab characters at the
  start of a line, and the position behind that run, or the cursor where the cursor is on
  that line inside the run or at its start.
\<close>

definition tab_run :: "view \<Rightarrow> nat \<Rightarrow> nat" where
  "tab_run v line = length (takeWhile (\<lambda>c. c = tab_char v) (lines v ! line))"

definition behind_tab_run :: "view \<Rightarrow> nat \<Rightarrow> iter" where
  "behind_tab_run v line =
     (line, if fst (insert_mark v) = line then min (snd (insert_mark v)) (tab_run v line)
            else tab_run v line)"

lemma find_start_loop_first:
  "find_start_loop v iter st =
     map_option (\<lambda>x. skip_tab_chars v (fst x))
       (find closed_at (zip (backward_positions (lines v) iter)
                            (balances v st (backward_positions (lines v) iter))))"
proof (induction v iter st rule: find_start_loop.induct)
  case (1 v iter st)
  define st' where "st' = paren_step v iter st"
  show ?case
  proof (cases "starts_line iter \<and> count1 st' \<le> 0 \<and> count2 st' \<le> 0")
    case True
    then have "find_start_loop v iter st = Some (skip_tab_chars v iter)"
      by (subst find_start_loop.simps) (simp add: st'_def Let_def)
    moreover have "find closed_at (zip (backward_positions (lines v) iter)
        (balances v st (backward_positions (lines v) iter))) = Some (iter, st')"
      using True by (subst (1 2) backward_positions.simps) (simp add: st'_def closed_at_def)
    ultimately show ?thesis by simp
  next
    case False
    show ?thesis
    proof (cases "fst (backward_char (lines v) iter)")
      case moves: True
      define iter' where "iter' = snd (backward_char (lines v) iter)"
      have "find_start_loop v iter st = find_start_loop v iter' st'"
        using False moves by (subst find_start_loop.simps) (auto simp: st'_def Let_def iter'_def)
      also have "\<dots> = map_option (\<lambda>x. skip_tab_chars v (fst x))
          (find closed_at (zip (backward_positions (lines v) iter')
                               (balances v st' (backward_positions (lines v) iter'))))"
        using "1.IH" [OF refl] False moves
        unfolding iter'_def st'_def by blast
      also have "find closed_at (zip (backward_positions (lines v) iter')
                               (balances v st' (backward_positions (lines v) iter')))
          = find closed_at (zip (backward_positions (lines v) iter)
                               (balances v st (backward_positions (lines v) iter)))"
        using False moves
        by (subst (3 4) backward_positions.simps)
           (auto simp: st'_def [symmetric] iter'_def [symmetric] closed_at_def)
      finally show ?thesis .
    next
      case stays: False
      have "find_start_loop v iter st = None"
        using False stays by (subst find_start_loop.simps) (auto simp: st'_def Let_def)
      moreover have "find closed_at (zip (backward_positions (lines v) iter)
          (balances v st (backward_positions (lines v) iter))) = None"
        using False stays
        by (subst (1 2) backward_positions.simps) (auto simp: st'_def closed_at_def)
      ultimately show ?thesis by simp
    qed
  qed
qed

lemma skip_tab_chars_in_line:
  assumes "tab_char v \<noteq> NL" "tab_char v \<noteq> NUL"
  shows "fst (skip_tab_chars v it) = fst it \<and> snd it \<le> snd (skip_tab_chars v it) \<and>
         (\<forall>k. snd it \<le> k \<and> k < snd (skip_tab_chars v it) \<longrightarrow>
              get_char (lines v) (fst it, k) = tab_char v \<and> (fst it, k) \<noteq> insert_mark v)"
  using assms
proof (induction v it rule: skip_tab_chars.induct)
  case (1 v iter)
  show ?case
  proof (cases "iter \<noteq> insert_mark v \<and> get_char (lines v) iter = tab_char v")
    case False
    then have "skip_tab_chars v iter = iter" by (subst skip_tab_chars.simps) auto
    then show ?thesis by auto
  next
    case True
    then have inl: "snd iter < length (lines v ! fst iter)"
      using "1.prems" by (auto simp: get_char_def split: if_splits)
    then have fc: "snd (forward_char (lines v) iter) = (fst iter, Suc (snd iter))"
      by (simp add: forward_char_def)
    have here: "get_char (lines v) (fst iter, snd iter) = tab_char v"
        "(fst iter, snd iter) \<noteq> insert_mark v"
      using True by simp_all
    show ?thesis
    proof (cases "fst (forward_char (lines v) iter)")
      case False
      then have "skip_tab_chars v iter = (fst iter, Suc (snd iter))"
        using True fc by (subst skip_tab_chars.simps) auto
      then show ?thesis using here by (auto simp: less_Suc_eq_le le_less)
    next
      case moves: True
      then have eq: "skip_tab_chars v iter = skip_tab_chars v (fst iter, Suc (snd iter))"
        using True fc by (subst skip_tab_chars.simps) auto
      have IH: "fst (skip_tab_chars v (fst iter, Suc (snd iter))) = fst iter \<and>
          Suc (snd iter) \<le> snd (skip_tab_chars v (fst iter, Suc (snd iter))) \<and>
          (\<forall>k. Suc (snd iter) \<le> k \<and> k < snd (skip_tab_chars v (fst iter, Suc (snd iter))) \<longrightarrow>
              get_char (lines v) (fst iter, k) = tab_char v \<and> (fst iter, k) \<noteq> insert_mark v)"
        using "1.IH" [OF True moves] "1.prems" fc by simp
      show ?thesis
        unfolding eq
      proof -
        have "get_char (lines v) (fst iter, k) = tab_char v \<and> (fst iter, k) \<noteq> insert_mark v"
          if k: "snd iter \<le> k \<and> k < snd (skip_tab_chars v (fst iter, Suc (snd iter)))" for k
        proof (cases "k = snd iter")
          case True
          then show ?thesis using here by simp
        next
          case False
          then have "Suc (snd iter) \<le> k" using k by simp
          then show ?thesis using IH k by blast
        qed
        then show "fst (skip_tab_chars v (fst iter, Suc (snd iter))) = fst iter \<and>
           snd iter \<le> snd (skip_tab_chars v (fst iter, Suc (snd iter))) \<and>
           (\<forall>k. snd iter \<le> k \<and> k < snd (skip_tab_chars v (fst iter, Suc (snd iter))) \<longrightarrow>
              get_char (lines v) (fst iter, k) = tab_char v \<and> (fst iter, k) \<noteq> insert_mark v)"
          using IH by simp
      qed
    qed
  qed
qed

definition scan_example :: view where
  "scan_example =
     \<lparr>lines = [''f(a,'', TAB # ''b)'', TAB # ''g[1''], insert_mark = (2, 2),
      selection_bound = (2, 2), tab_char = TAB, tab_size = 1,
      context_class = (\<lambda>_ _. False), is_bracket_language = True, language_id = None,
      file_path = ''f'', modified = False, undo = []\<rparr>"

lemmas scan_eval =
  find_start_of_closed_expression_def find_start_loop.simps paren_step_def is_code_def
  get_char_def toggles_ignore_def backward_char_def starts_line_def skip_tab_chars.simps
  forward_char_def is_end_def buffer_end_def Let_def backward_positions.simps closed_at_def

lemma valid_backward_char:
  "valid_iter b it \<Longrightarrow> valid_iter b (snd (backward_char b it))
     \<and> fst (snd (backward_char b it)) \<le> fst it"
  by (auto simp: valid_iter_def backward_char_def)

lemma backward_positions_valid:
  "valid_iter b it \<Longrightarrow> p \<in> set (backward_positions b it) \<Longrightarrow> valid_iter b p \<and> fst p \<le> fst it"
proof (induction b it rule: backward_positions.induct)
  case (1 b it)
  from "1.prems"(2) have "p = it \<or> (fst (backward_char b it)
      \<and> p \<in> set (backward_positions b (snd (backward_char b it))))"
    by (subst (asm) backward_positions.simps) (auto split: if_splits)
  then show ?case
  proof
    assume "p = it"
    then show ?thesis using "1.prems"(1) by simp
  next
    assume a: "fst (backward_char b it) \<and> p \<in> set (backward_positions b (snd (backward_char b it)))"
    then have "valid_iter b p \<and> fst p \<le> fst (snd (backward_char b it))"
      using "1.IH" valid_backward_char [OF "1.prems"(1)] by blast
    then show ?thesis using valid_backward_char [OF "1.prems"(1)] by auto
  qed
qed

lemma find_Some_in_set: "find P xs = Some x \<Longrightarrow> x \<in> set xs"
  by (induction xs) (auto split: if_splits)

lemma skip_tab_chars_col:
  assumes "tab_char v \<noteq> NL" "i < length (lines v)" "j \<le> length (lines v ! i)"
  shows "skip_tab_chars v (i, j) =
     (i, if fst (insert_mark v) = i \<and> j \<le> snd (insert_mark v)
         then min (snd (insert_mark v))
                (j + length (takeWhile (\<lambda>c. c = tab_char v) (drop j (lines v ! i))))
         else j + length (takeWhile (\<lambda>c. c = tab_char v) (drop j (lines v ! i))))"
  using assms
proof (induction "length (lines v ! i) - j" arbitrary: j)
  case 0
  then have j: "j = length (lines v ! i)" by simp
  have "skip_tab_chars v (i, j) = (i, j)"
    using j "0.prems"(1)
    by (subst skip_tab_chars.simps) (auto simp: get_char_def forward_char_def)
  then show ?case using j by simp
next
  case (Suc k)
  then have lt: "j < length (lines v ! i)" by simp
  then have dr: "drop j (lines v ! i) = lines v ! i ! j # drop (Suc j) (lines v ! i)"
    by (simp add: Cons_nth_drop_Suc)
  have gc: "get_char (lines v) (i, j) = lines v ! i ! j" using lt by (simp add: get_char_def)
  show ?case
  proof (cases "(i, j) \<noteq> insert_mark v \<and> lines v ! i ! j = tab_char v")
    case False
    then have stop: "skip_tab_chars v (i, j) = (i, j)"
      using gc by (subst skip_tab_chars.simps) auto
    show ?thesis
    proof (cases "(i, j) = insert_mark v")
      case True
      then have "fst (insert_mark v) = i" "snd (insert_mark v) = j"
        by (cases "insert_mark v"; simp)+
      then show ?thesis unfolding stop by simp
    next
      case at: False
      then have "lines v ! i ! j \<noteq> tab_char v" using False by simp
      then show ?thesis unfolding stop by (simp add: dr)
    qed
  next
    case True
    have fc: "forward_char (lines v) (i, j) = (\<not> is_end (lines v) (i, Suc j), (i, Suc j))"
      using Suc.prems lt by (intro forward_char_in_line_fst) auto
    have c: "fst (insert_mark v) = i \<Longrightarrow> snd (insert_mark v) \<noteq> j"
      using True by (cases "insert_mark v") auto
    show ?thesis
    proof (cases "is_end (lines v) (i, Suc j)")
      case e: True
      then have "drop (Suc j) (lines v ! i) = []"
        using Suc.prems last_conv_nth_line [of i "lines v"]
        by (auto simp: is_end_def buffer_end_def)
      moreover have "skip_tab_chars v (i, j) = (i, Suc j)"
        using True gc fc e by (subst skip_tab_chars.simps) auto
      ultimately show ?thesis using True c by (auto simp: dr)
    next
      case ne: False
      have "skip_tab_chars v (i, j) = skip_tab_chars v (i, Suc j)"
        using True gc fc ne by (subst skip_tab_chars.simps) auto
      also have "\<dots> = (i, if fst (insert_mark v) = i \<and> Suc j \<le> snd (insert_mark v)
         then min (snd (insert_mark v))
                (Suc j + length (takeWhile (\<lambda>c. c = tab_char v) (drop (Suc j) (lines v ! i))))
         else Suc j + length (takeWhile (\<lambda>c. c = tab_char v) (drop (Suc j) (lines v ! i))))"
        using Suc lt by (intro Suc.hyps(1)) auto
      finally show ?thesis using True c by (auto simp: dr)
    qed
  qed
qed

lemma skip_tab_chars_line_start:
  assumes "tab_char v \<noteq> NL" "i < length (lines v)"
  shows "skip_tab_chars v (i, 0) = behind_tab_run v i"
  using skip_tab_chars_col [of v i 0] assms by (simp add: behind_tab_run_def tab_run_def)

text \<open>
  C1, as amended. For every buffer, every valid starting position and every tab character
  other than the newline, the scan visits the positions from the starting position
  backward, keeping the two counters of \<open>paren_step\<close>. It stops at the first position in
  scan order that starts a line and has both counters at most 0, so no position scanned
  earlier is such a position. It returns the position of that line behind the run of tab
  characters the line starts with, or the cursor if the cursor is on that line inside the
  run or at its start (\<open>behind_tab_run\<close>): the result is the start of the line only if the
  line does not start with the tab character or the cursor is at the start of the line. If
  no visited position qualifies, the result is \<open>None\<close>, the return value false of the
  source; nothing is raised.
\<close>

theorem find_start_of_closed_expression_first:
  assumes "valid_iter (lines v) iter" "tab_char v \<noteq> NL"
  shows "find_start_of_closed_expression v iter =
     (case find closed_at
             (zip (backward_positions (lines v) iter)
                  (balances v \<lparr>count1 = 0, count2 = 0, ignore = False\<rparr>
                     (backward_positions (lines v) iter))) of
        None \<Rightarrow> None
      | Some x \<Rightarrow> Some (behind_tab_run v (fst (fst x))))"
proof (cases "find closed_at
             (zip (backward_positions (lines v) iter)
                  (balances v \<lparr>count1 = 0, count2 = 0, ignore = False\<rparr>
                     (backward_positions (lines v) iter)))")
  case None
  then show ?thesis
    unfolding find_start_of_closed_expression_def find_start_loop_first by simp
next
  case (Some x)
  let ?ps = "backward_positions (lines v) iter"
  have "(fst x, snd x) \<in> set (zip ?ps (balances v \<lparr>count1 = 0, count2 = 0, ignore = False\<rparr> ?ps))"
    using find_Some_in_set [OF Some] by simp
  then have "fst x \<in> set ?ps" by (rule set_zip_leftD)
  then have valid: "valid_iter (lines v) (fst x)"
    using backward_positions_valid [OF assms(1)] by blast
  have "closed_at x" using Some by (auto simp: find_Some_iff)
  then have "snd (fst x) = 0" by (simp add: closed_at_def starts_line_def)
  then have "fst x = (fst (fst x), 0)" by (metis prod.collapse)
  then have "skip_tab_chars v (fst x) = behind_tab_run v (fst (fst x))"
    using skip_tab_chars_line_start [of v "fst (fst x)"] valid assms(2)
    by (simp add: valid_iter_def)
  then show ?thesis
    unfolding find_start_of_closed_expression_def find_start_loop_first using Some by simp
qed

text \<open>
  From the end of line 2 of \<open>scan_example\<close> the scan stops at the start of that line and
  returns the position behind its tab. From the end of line 1 it passes the start of that
  line, where the first counter is 1, and stops at the start of line 0. In a buffer that
  is one closing parenthesis behind \<open>a\<close> it finds nothing. With the cursor at the start of
  a line that starts with a tab, the result is the start of the line.
\<close>

theorem find_start_of_closed_expression_first_witness:
  "valid_iter (lines scan_example) (2, 4) \<and> tab_char scan_example \<noteq> NL \<and>
   find_start_of_closed_expression scan_example (2, 4) = Some (2, 1) \<and>
   find_start_of_closed_expression scan_example (1, 3) = Some (0, 0) \<and>
   find_start_of_closed_expression (scan_example\<lparr>lines := [''a)'']\<rparr>) (0, 2) = None \<and>
   find_start_of_closed_expression
     (scan_example\<lparr>lines := [TAB # ''x''], insert_mark := (0, 0)\<rparr>) (0, 2) = Some (0, 0)"
proof -
  have v: "valid_iter (lines scan_example) (2, 4)" "tab_char scan_example \<noteq> NL"
    by (simp_all add: scan_example_def valid_iter_def)
  have 1: "find_start_of_closed_expression scan_example (2, 4) = Some (2, 1)"
    using find_start_of_closed_expression_first [of scan_example "(2, 4)"]
    by (simp add: scan_eval scan_example_def valid_iter_def behind_tab_run_def tab_run_def)
  have 2: "find_start_of_closed_expression scan_example (1, 3) = Some (0, 0)"
    using find_start_of_closed_expression_first [of scan_example "(1, 3)"]
    by (simp add: scan_eval scan_example_def valid_iter_def behind_tab_run_def tab_run_def)
  have 3: "find_start_of_closed_expression (scan_example\<lparr>lines := [''a)'']\<rparr>) (0, 2) = None"
    using find_start_of_closed_expression_first [of "scan_example\<lparr>lines := [''a)'']\<rparr>" "(0, 2)"]
    by (simp add: scan_eval scan_example_def valid_iter_def behind_tab_run_def tab_run_def)
  have 4: "find_start_of_closed_expression
     (scan_example\<lparr>lines := [TAB # ''x''], insert_mark := (0, 0)\<rparr>) (0, 2) = Some (0, 0)"
    using find_start_of_closed_expression_first
      [of "scan_example\<lparr>lines := [TAB # ''x''], insert_mark := (0, 0)\<rparr>" "(0, 2)"]
    by (simp add: scan_eval scan_example_def valid_iter_def behind_tab_run_def tab_run_def)
  show ?thesis using v 1 2 3 4 by simp
qed

text \<open>
  The position returned is not always a position that starts a line: on line 2 of
  \<open>scan_example\<close> the scan stops at the start of the line, where the counters are 0 and
  -1, and returns the position behind the tab.
\<close>

theorem find_start_of_closed_expression_counterexample:
  "find_start_of_closed_expression scan_example (2, 4) = Some (2, 1) \<and> \<not> starts_line (2, 1)
   \<and> find closed_at
        (zip (backward_positions (lines scan_example) (2, 4))
             (balances scan_example \<lparr>count1 = 0, count2 = 0, ignore = False\<rparr>
                (backward_positions (lines scan_example) (2, 4))))
      = Some ((2, 0), \<lparr>count1 = 0, count2 = - 1, ignore = False\<rparr>)"
  by (simp add: scan_eval scan_example_def)

text \<open>
  The words of the claim about the single quote: a quote is escaped when the character in
  front of it is a backslash that has no backslash in front of itself. \<open>second_in_buffer\<close>
  is the one place where the scans do not decide this: the second position of the buffer
  behind a backslash, where \<^verbatim>\<open>backward_char\<close> stays on the backslash and the scans read
  it as its own predecessor.
\<close>

definition escaped :: "buffer \<Rightarrow> iter \<Rightarrow> bool" where
  "escaped b it =
     (fst (backward_char b it) \<and> get_char b (snd (backward_char b it)) = BACKSLASH \<and>
      \<not> (fst (backward_char b (snd (backward_char b it))) \<and>
         get_char b (snd (backward_char b (snd (backward_char b it)))) = BACKSLASH))"

definition second_in_buffer :: "buffer \<Rightarrow> iter \<Rightarrow> bool" where
  "second_in_buffer b it =
     (fst (backward_char b it) \<and> \<not> fst (backward_char b (snd (backward_char b it))))"

lemma backward_char_stays:
  "\<not> fst (backward_char b it) \<Longrightarrow> snd (backward_char b it) = it"
  by (auto simp: backward_char_def split: if_splits)

lemma toggles_ignore_escaped:
  assumes "get_char b it = QUOTE"
    and "\<not> (second_in_buffer b it \<and> get_char b (snd (backward_char b it)) = BACKSLASH)"
  shows "toggles_ignore b it = (\<not> escaped b it)"
proof (cases "fst (backward_char b it)")
  case False
  then show ?thesis
    using assms(1) backward_char_stays [of b it]
    by (simp add: toggles_ignore_def escaped_def Let_def)
next
  case True
  show ?thesis
  proof (cases "fst (backward_char b (snd (backward_char b it)))")
    case True
    then show ?thesis using \<open>fst (backward_char b it)\<close>
      by (auto simp: toggles_ignore_def escaped_def Let_def)
  next
    case False
    then show ?thesis
      using True assms(2) backward_char_stays [of b "snd (backward_char b it)"]
      by (auto simp: toggles_ignore_def escaped_def Let_def second_in_buffer_def)
  qed
qed

definition quote_example :: view where
  "quote_example =
     \<lparr>lines = [[CHR ''a'', BACKSLASH, QUOTE, CHR ''('', QUOTE, CHR '')'']], insert_mark = (0, 0),
      selection_bound = (0, 0), tab_char = TAB, tab_size = 1,
      context_class = (\<lambda>it c. it = (0, 5) \<and> c = ''comment''), is_bracket_language = True,
      language_id = None, file_path = ''f'', modified = False, undo = []\<rparr>"

definition comment_example :: view where
  "comment_example =
     \<lparr>lines = [[QUOTE]], insert_mark = (0, 0),
      selection_bound = (0, 0), tab_char = TAB, tab_size = 1,
      context_class = (\<lambda>it c. c = ''comment''), is_bracket_language = True,
      language_id = None, file_path = ''f'', modified = False, undo = []\<rparr>"

text \<open>
  C2, as amended. In the loop bodies of the four scans (\<open>paren_step\<close> is the body of
  \<^verbatim>\<open>find_start_of_closed_expression\<close> and \<^verbatim>\<open>find_open_expression_symbol\<close>,
  \<open>right_bracket_step\<close> and \<open>left_bracket_step\<close> those of the two brace scans) a
  character in comment or string context changes neither a counter nor the flag; a single
  quote in plain context leaves the counters and toggles the flag if and only if it is not
  escaped, for every quote but one at the second position of the buffer behind a
  backslash; and while the flag is set no character changes a counter or ends a brace
  scan.
\<close>

theorem scan_steps_respect_context:
  "((context_class v it ''comment'' \<or> context_class v it ''string'') \<longrightarrow>
      paren_step v it st = st \<and> right_bracket_step v it n = Inr n \<and>
      left_bracket_step v it n = Inr n)
   \<and> (\<not> context_class v it ''comment'' \<and> \<not> context_class v it ''string'' \<and>
      get_char (lines v) it = QUOTE \<and>
      \<not> (second_in_buffer (lines v) it \<and>
         get_char (lines v) (snd (backward_char (lines v) it)) = BACKSLASH) \<longrightarrow>
      paren_step v it st = (if escaped (lines v) it then st else st\<lparr>ignore := \<not> ignore st\<rparr>) \<and>
      right_bracket_step v it n
        = Inr (if escaped (lines v) it then n else n\<lparr>ignoring := \<not> ignoring n\<rparr>) \<and>
      left_bracket_step v it n
        = Inr (if escaped (lines v) it then n else n\<lparr>ignoring := \<not> ignoring n\<rparr>))
   \<and> (ignore st \<longrightarrow>
      count1 (paren_step v it st) = count1 st \<and> count2 (paren_step v it st) = count2 st)
   \<and> (ignoring n \<longrightarrow>
      (\<exists>n'. right_bracket_step v it n = Inr n' \<and> count n' = count n) \<and>
      (\<exists>n'. left_bracket_step v it n = Inr n' \<and> count n' = count n))"
proof (intro conjI impI)
  assume "context_class v it ''comment'' \<or> context_class v it ''string''"
  then show "paren_step v it st = st" "right_bracket_step v it n = Inr n"
      "left_bracket_step v it n = Inr n"
    by (auto simp: paren_step_def right_bracket_step_def left_bracket_step_def is_code_def)
next
  assume a: "\<not> context_class v it ''comment'' \<and> \<not> context_class v it ''string'' \<and>
      get_char (lines v) it = QUOTE \<and>
      \<not> (second_in_buffer (lines v) it \<and>
         get_char (lines v) (snd (backward_char (lines v) it)) = BACKSLASH)"
  then have t: "toggles_ignore (lines v) it = (\<not> escaped (lines v) it)"
    by (intro toggles_ignore_escaped) auto
  show "paren_step v it st = (if escaped (lines v) it then st else st\<lparr>ignore := \<not> ignore st\<rparr>)"
    using a t by (simp add: paren_step_def is_code_def)
  show "right_bracket_step v it n
        = Inr (if escaped (lines v) it then n else n\<lparr>ignoring := \<not> ignoring n\<rparr>)"
    using a t by (simp add: right_bracket_step_def is_code_def)
  show "left_bracket_step v it n
        = Inr (if escaped (lines v) it then n else n\<lparr>ignoring := \<not> ignoring n\<rparr>)"
    using a t by (simp add: left_bracket_step_def is_code_def)
next
  assume "ignore st"
  then show "count1 (paren_step v it st) = count1 st" "count2 (paren_step v it st) = count2 st"
    by (simp_all add: paren_step_def)
next
  assume "ignoring n"
  then show "\<exists>n'. right_bracket_step v it n = Inr n' \<and> count n' = count n"
      "\<exists>n'. left_bracket_step v it n = Inr n' \<and> count n' = count n"
    by (simp_all add: right_bracket_step_def left_bracket_step_def)
qed

lemmas step_eval =
  quote_example_def comment_example_def get_char_def backward_char_def second_in_buffer_def
  escaped_def

text \<open>
  The theorem in \<open>quote_example\<close>, the line \<open>a\'('\<close> with a closing parenthesis in a
  comment behind it: the parenthesis in the comment changes nothing, the quote behind the
  backslash does not toggle the flag, the second quote does, and the opening parenthesis
  between them is not counted while the flag is set.
\<close>

theorem scan_steps_respect_context_witness:
  "paren_step quote_example (0, 5) \<lparr>count1 = 0, count2 = 0, ignore = False\<rparr>
     = \<lparr>count1 = 0, count2 = 0, ignore = False\<rparr>
   \<and> paren_step quote_example (0, 2) \<lparr>count1 = 0, count2 = 0, ignore = True\<rparr>
     = \<lparr>count1 = 0, count2 = 0, ignore = True\<rparr>
   \<and> paren_step quote_example (0, 4) \<lparr>count1 = 0, count2 = 0, ignore = True\<rparr>
     = \<lparr>count1 = 0, count2 = 0, ignore = False\<rparr>
   \<and> count1 (paren_step quote_example (0, 3) \<lparr>count1 = 0, count2 = 0, ignore = True\<rparr>) = 0
   \<and> (\<exists>n'. right_bracket_step quote_example (0, 3) \<lparr>count = 0, ignoring = True\<rparr> = Inr n'
         \<and> count n' = 0)"
proof -
  let ?s = "\<lparr>count1 = 0, count2 = 0, ignore = False\<rparr>"
  let ?t = "\<lparr>count1 = 0, count2 = 0, ignore = True\<rparr>"
  let ?n = "\<lparr>count = 0, ignoring = True\<rparr>"
  have c: "context_class quote_example (0, 5) ''comment'' \<or> context_class quote_example (0, 5) ''string''"
    by (simp add: quote_example_def)
  have 1: "paren_step quote_example (0, 5) ?s = ?s"
    using scan_steps_respect_context [of quote_example "(0, 5)" ?s ?n] c by blast
  have q2: "\<not> context_class quote_example (0, 2) ''comment'' \<and>
      \<not> context_class quote_example (0, 2) ''string'' \<and>
      get_char (lines quote_example) (0, 2) = QUOTE \<and>
      \<not> (second_in_buffer (lines quote_example) (0, 2) \<and>
         get_char (lines quote_example) (snd (backward_char (lines quote_example) (0, 2))) = BACKSLASH)"
    by (simp add: step_eval)
  have e2: "escaped (lines quote_example) (0, 2)" by (simp add: step_eval)
  have 2: "paren_step quote_example (0, 2) ?t = ?t"
    using scan_steps_respect_context [of quote_example "(0, 2)" ?t ?n] q2 e2 by simp
  have q4: "\<not> context_class quote_example (0, 4) ''comment'' \<and>
      \<not> context_class quote_example (0, 4) ''string'' \<and>
      get_char (lines quote_example) (0, 4) = QUOTE \<and>
      \<not> (second_in_buffer (lines quote_example) (0, 4) \<and>
         get_char (lines quote_example) (snd (backward_char (lines quote_example) (0, 4))) = BACKSLASH)"
    by (simp add: step_eval)
  have e4: "\<not> escaped (lines quote_example) (0, 4)" by (simp add: step_eval)
  have 4: "paren_step quote_example (0, 4) ?t = ?s"
    using scan_steps_respect_context [of quote_example "(0, 4)" ?t ?n] q4 e4 by simp
  have 3: "count1 (paren_step quote_example (0, 3) ?t) = 0"
    using scan_steps_respect_context [of quote_example "(0, 3)" ?t ?n] by simp
  have 5: "\<exists>n'. right_bracket_step quote_example (0, 3) ?n = Inr n' \<and> count n' = 0"
    using scan_steps_respect_context [of quote_example "(0, 3)" ?t ?n] by simp
  show ?thesis using 1 2 3 4 5 by simp
qed

text \<open>
  The claim as stated fails for a quote in a comment: in \<open>comment_example\<close> the only
  character is a single quote that is not escaped, and it does not toggle the flag.
\<close>

theorem scan_steps_respect_context_counterexample:
  "get_char (lines comment_example) (0, 0) = QUOTE \<and> \<not> escaped (lines comment_example) (0, 0)
   \<and> ignore (paren_step comment_example (0, 0) \<lparr>count1 = 0, count2 = 0, ignore = False\<rparr>) = False
   \<and> right_bracket_step comment_example (0, 0) \<lparr>count = 0, ignoring = False\<rparr>
       = Inr \<lparr>count = 0, ignoring = False\<rparr>"
  by (simp add: step_eval paren_step_def right_bracket_step_def is_code_def)

section \<open>Enter in the basic and in the bracket language policy\<close>

text \<open>\<^verbatim>\<open>tab\<close>, the string of the tab style that \<^verbatim>\<open>set_tab_char_and_size\<close> builds.\<close>

definition tab :: "view \<Rightarrow> string" where
  "tab v = replicate (tab_size v) (tab_char v)"

text \<open>\<^verbatim>\<open>get_token\<close>: the identifier characters around an iterator.\<close>

definition is_token_char :: "char \<Rightarrow> bool" where
  "is_token_char c =
     ((of_char (CHR ''A'') \<le> (of_char c :: nat) \<and> (of_char c :: nat) \<le> of_char (CHR ''Z'')) \<or>
      (of_char (CHR ''a'') \<le> (of_char c :: nat) \<and> (of_char c :: nat) \<le> of_char (CHR ''z'')) \<or>
      (of_char (CHR ''0'') \<le> (of_char c :: nat) \<and> (of_char c :: nat) \<le> of_char (CHR ''9'')) \<or>
      c = CHR ''_'')"

function token_start :: "buffer \<Rightarrow> iter \<Rightarrow> iter \<Rightarrow> iter" where
  "token_start b iter start =
     (if is_token_char (get_char b iter)
      then (if fst (backward_char b iter) then token_start b (snd (backward_char b iter)) iter
            else iter)
      else start)"
  by pat_completeness auto
termination
  by (relation "measures [\<lambda>(b, it, s). fst it, \<lambda>(b, it, s). snd it]")
     (auto simp: backward_char_def split: if_splits)

declare token_start.simps [simp del]

function token_end :: "buffer \<Rightarrow> iter \<Rightarrow> iter" where
  "token_end b iter =
     (if is_token_char (get_char b iter)
      then (if fst (forward_char b iter) then token_end b (snd (forward_char b iter))
            else snd (forward_char b iter))
      else iter)"
  by pat_completeness auto
termination
  by (relation "measures [\<lambda>(b, it). length b - fst it,
                          \<lambda>(b, it). length (b ! fst it) - snd it]")
     (auto simp: forward_char_def split: if_splits)

declare token_end.simps [simp del]

definition get_token :: "buffer \<Rightarrow> iter \<Rightarrow> string" where
  "get_token b iter = get_text_in_line b (token_start b iter iter) (token_end b iter)"

text \<open>
  The loops that look for blanks in front of the cursor: the one of the basic policy stops
  at a character that is no space or tab, the one of the bracket policy also passes the
  end of a line.
\<close>

function blank_backward_basic :: "buffer \<Rightarrow> iter \<Rightarrow> iter" where
  "blank_backward_basic b it =
     (if (get_char b it = SPACE \<or> get_char b it = TAB) \<and> \<not> starts_line it
      then (if fst (backward_char b it) then blank_backward_basic b (snd (backward_char b it))
            else snd (backward_char b it))
      else it)"
  by pat_completeness auto
termination
  by (relation "measure (\<lambda>(b, it). snd it)") (auto simp: starts_line_def backward_char_def)

declare blank_backward_basic.simps [simp del]

function blank_backward_bracket :: "buffer \<Rightarrow> iter \<Rightarrow> iter" where
  "blank_backward_bracket b it =
     (if (get_char b it = SPACE \<or> get_char b it = TAB \<or> ends_line b it) \<and> \<not> starts_line it
      then (if fst (backward_char b it) then blank_backward_bracket b (snd (backward_char b it))
            else snd (backward_char b it))
      else it)"
  by pat_completeness auto
termination
  by (relation "measure (\<lambda>(b, it). snd it)") (auto simp: starts_line_def backward_char_def)

declare blank_backward_bracket.simps [simp del]

text \<open>
  The Return branch of \<^verbatim>\<open>on_key_press_event_basic\<close>. With a selection or at the start
  of a line the key goes on to GTK.
\<close>

definition basic_return :: "view \<Rightarrow> view" where
  "basic_return v =
     (let v = begin_user_action v;
          iter = insert_mark v
      in if \<not> get_has_selection v \<and> \<not> starts_line iter then
           (let end_blank_iter = tabs_end_forward (lines v) iter;
                start_blank_iter = snd (backward_char (lines v) iter);
                start_blank_iter = blank_backward_basic (lines v) start_blank_iter;
                v = (if starts_line start_blank_iter \<and>
                        (get_char (lines v) start_blank_iter = SPACE \<or>
                         get_char (lines v) start_blank_iter = TAB)
                     then erase v iter end_blank_iter
                     else erase v (snd (forward_char (lines v) start_blank_iter)) end_blank_iter);
                iter = insert_mark v;
                line_nr = get_line iter;
                tabs_end_iter = get_tabs_end_iter (lines v) (get_line (insert_mark v));
                line_tabs = get_line_before (lines v) tabs_end_iter;
                next_line_tabs =
                  get_line_before (lines v) (get_tabs_end_iter (lines v) (line_nr + 1))
            in if line_nr + 1 < get_line_count (lines v) \<and> ends_line (lines v) iter \<and>
                  length line_tabs < length next_line_tabs
               then end_user_action (insert_at_cursor v (NL # next_line_tabs))
               else end_user_action (insert_at_cursor v (NL # line_tabs)))
         else end_user_action (gtk_return v))"

text \<open>
  The Return branch of \<^verbatim>\<open>on_key_press_event_bracket_language\<close>, as far as the cursor
  follows an opening brace. \<open>Unmodelled\<close> stands for the rest of the branch, the cases in
  which the character in front of the cursor is no opening brace. Where the source leaves
  its chain of conditions it ends the user action and calls
  \<^verbatim>\<open>on_key_press_event_basic\<close>.
\<close>

datatype handled = Handled view | Unmodelled

function backward_to_line_start :: "buffer \<Rightarrow> iter \<Rightarrow> iter" where
  "backward_to_line_start b it =
     (if \<not> starts_line it
      then (if fst (backward_char b it) then backward_to_line_start b (snd (backward_char b it))
            else snd (backward_char b it))
      else it)"
  by pat_completeness auto
termination
  by (relation "measure (\<lambda>(b, it). snd it)") (auto simp: starts_line_def backward_char_def)

declare backward_to_line_start.simps [simp del]

definition add_semicolon :: "view \<Rightarrow> iter \<Rightarrow> bool" where
  "add_semicolon v start_of_sentence_iter =
     (if language_id v = Some ''chdr'' \<or> language_id v = Some ''cpphdr'' \<or>
         language_id v = Some ''c'' \<or> language_id v = Some ''cpp'' then
        (let token = get_token (lines v) start_of_sentence_iter;
             token =
               (if token = [] then
                  (let iter = backward_to_line_start (lines v) start_of_sentence_iter in
                   if fst (backward_char (lines v) iter) then
                     (case find_start_of_closed_expression v (snd (backward_char (lines v) iter)) of
                        Some iter \<Rightarrow> get_token (lines v) iter
                      | None \<Rightarrow> token)
                   else token)
                else token)
         in token = ''class'' \<or> token = ''struct'')
      else False)"

definition bracket_language_return :: "view \<Rightarrow> handled" where
  "bracket_language_return v =
     (let v = begin_user_action v;
          iter = insert_mark v
      in if \<not> starts_line iter then
           (let end_blank_iter = tabs_end_forward (lines v) iter;
                start_blank_iter = snd (backward_char (lines v) iter);
                start_blank_iter = blank_backward_bracket (lines v) start_blank_iter;
                v = (if \<not> starts_line start_blank_iter
                     then erase v (snd (forward_char (lines v) start_blank_iter)) end_blank_iter
                     else erase v iter end_blank_iter);
                iter = insert_mark v
            in case find_start_of_closed_expression v iter of
                 Some start_of_sentence_iter \<Rightarrow>
                   (let tabs = get_line_before (lines v)
                                 (get_tabs_end_iter (lines v) (get_line start_of_sentence_iter))
                    in if fst (backward_char (lines v) iter) \<and>
                          get_char (lines v) (snd (backward_char (lines v) iter)) = CHR ''{''
                       then
                         (let iter = snd (backward_char (lines v) iter);
                              has_bracket =
                                (case find_right_bracket_forward v iter of
                                   Some found_iter \<Rightarrow>
                                     length tabs =
                                       length (get_line_before (lines v)
                                                 (get_tabs_end_iter (lines v) (get_line found_iter)))
                                 | None \<Rightarrow> False)
                          in if get_char (lines v) (insert_mark v) = CHR ''}'' then
                               (let v = insert_at_cursor v (NL # tabs @ tab v @ NL # tabs);
                                    insert_it = backward_chars (lines v) (length tabs + 1)
                                                  (insert_mark v);
                                    v = (if fst insert_it then place_cursor v (snd insert_it) else v)
                                in Handled (end_user_action v))
                             else if \<not> has_bracket then
                               (let semi = add_semicolon v start_of_sentence_iter;
                                    v = insert_at_cursor v
                                          (NL # tabs @ tab v @ NL # tabs
                                             @ (if semi then ''};'' else ''}''));
                                    insert_it = backward_chars (lines v)
                                                  (length tabs + (if semi then 3 else 2))
                                                  (insert_mark v);
                                    v = (if fst insert_it then place_cursor v (snd insert_it) else v)
                                in Handled (end_user_action v))
                             else Handled (end_user_action (insert_at_cursor v (NL # tabs @ tab v))))
                       else Unmodelled)
               | None \<Rightarrow> Handled (basic_return (end_user_action v)))
         else Handled (basic_return (end_user_action v)))"

text \<open>
  \<^verbatim>\<open>on_key_press_event\<close> for Return without the Control key and with no completion
  dialog shown: a selection, or a comment or string in front of the cursor, selects the
  basic policy.
\<close>

definition on_key_press_event_return :: "view \<Rightarrow> handled" where
  "on_key_press_event_return v =
     (if get_has_selection v then Handled (basic_return v)
      else if fst (backward_char (lines v) (insert_mark v)) \<and>
              (context_class v (snd (backward_char (lines v) (insert_mark v))) ''comment'' \<or>
               context_class v (snd (backward_char (lines v) (insert_mark v))) ''string'')
      then Handled (basic_return v)
      else if is_bracket_language v then bracket_language_return v
      else Handled (basic_return v))"

lemma split_lines_no_newline: "NL \<notin> set xs \<Longrightarrow> split_lines xs = [xs]"
  by (induction xs) auto

lemma split_lines_append_newline:
  "NL \<notin> set xs \<Longrightarrow> split_lines (xs @ NL # ys) = xs # split_lines ys"
  by (induction xs) auto

lemma find_start_valid:
  assumes "valid_iter (lines v) it" "tab_char v = SPACE \<or> tab_char v = TAB"
    and "find_start_of_closed_expression v it = Some s"
  shows "fst s < length (lines v) \<and> fst s \<le> fst it"
proof -
  let ?ps = "backward_positions (lines v) it"
  obtain x where x: "find closed_at (zip ?ps
        (balances v \<lparr>count1 = 0, count2 = 0, ignore = False\<rparr> ?ps)) = Some x"
      and s: "s = skip_tab_chars v (fst x)"
    using assms(3) unfolding find_start_loop_first find_start_of_closed_expression_def
    by (auto split: option.splits)
  have "(fst x, snd x) \<in> set (zip ?ps (balances v \<lparr>count1 = 0, count2 = 0, ignore = False\<rparr> ?ps))"
    using find_Some_in_set [OF x] by simp
  then have "fst x \<in> set ?ps" by (rule set_zip_leftD)
  then have "valid_iter (lines v) (fst x) \<and> fst (fst x) \<le> fst it"
    using backward_positions_valid [OF assms(1)] by blast
  moreover have "fst s = fst (fst x)"
    unfolding s using skip_tab_chars_in_line [of v "fst x"] assms(2) by auto
  ultimately show ?thesis by (auto simp: valid_iter_def)
qed

lemma skip_tab_chars_undo [simp]:
  "skip_tab_chars (v\<lparr>undo := u\<rparr>) it = skip_tab_chars v it"
proof (induction v it rule: skip_tab_chars.induct)
  case (1 v iter)
  show ?case
    using 1 by (subst skip_tab_chars.simps, subst (2) skip_tab_chars.simps) auto
qed

lemma paren_step_undo [simp]: "paren_step (v\<lparr>undo := u\<rparr>) it st = paren_step v it st"
  by (simp add: paren_step_def is_code_def)

lemma find_start_loop_undo [simp]:
  "find_start_loop (v\<lparr>undo := u\<rparr>) it st = find_start_loop v it st"
proof (induction v it st rule: find_start_loop.induct)
  case (1 v iter st)
  show ?case
    using 1 by (subst find_start_loop.simps, subst (2) find_start_loop.simps) (auto simp: Let_def)
qed

lemma find_start_of_closed_expression_undo [simp]:
  "find_start_of_closed_expression (v\<lparr>undo := u\<rparr>) it = find_start_of_closed_expression v it"
  by (simp add: find_start_of_closed_expression_def)

lemma leading_whitespace_no_newline: "NL \<notin> set (leading_whitespace l)"
  by (auto simp: leading_whitespace_def dest: set_takeWhileD)

lemma tabs_end_forward_stays:
  "get_char b it \<noteq> SPACE \<Longrightarrow> get_char b it \<noteq> TAB \<Longrightarrow> tabs_end_forward b it = it"
  by (subst tabs_end_forward.simps) simp

lemma blank_backward_bracket_stays:
  "get_char b it \<noteq> SPACE \<Longrightarrow> get_char b it \<noteq> TAB \<Longrightarrow> \<not> ends_line b it
     \<Longrightarrow> blank_backward_bracket b it = it"
  by (subst blank_backward_bracket.simps) simp

lemma blank_backward_basic_stays:
  "get_char b it \<noteq> SPACE \<Longrightarrow> get_char b it \<noteq> TAB \<Longrightarrow> blank_backward_basic b it = it"
  by (subst blank_backward_basic.simps) simp

lemma backward_steps_add:
  "backward_steps b (m + n) it = backward_steps b n (backward_steps b m it)"
  by (induction m arbitrary: it) simp_all

lemma erase_empty [simp]: "erase v x x = v"
  by (simp add: erase_def)

lemma insert_blank_line:
  assumes "i < length b" "NL \<notin> set xs" "NL \<notin> set ys"
  shows "insert_text b (i, j) (NL # xs @ NL # ys) =
           take i b @ [take j (b ! i), xs, ys @ drop j (b ! i)] @ drop (Suc i) b"
    and "mark_after_insert (i, j) (NL # xs @ NL # ys) (i, j) = (i + 2, length ys)"
  using assms
  by (simp_all add: insert_text_def mark_after_insert_def Let_def split_lines_append_newline
      split_lines_no_newline iter_less_def)

text \<open>
  C6, as amended. In a bracket language, Enter with no selection and the cursor at
  \<open>(i, j)\<close>, right behind an opening brace that is in no comment or string and right in
  front of a closing brace, when the scan for the start of the enclosing statement finds it
  at \<open>s\<close>: the line is split into three lines, the text up to the opening brace, a blank
  line of the indentation of the line of \<open>s\<close> and one tab unit, and the closing brace with
  the rest of the line behind that indentation. The cursor is at the end of the blank
  line, and all of it is one insertion in one user action.
\<close>

theorem enter_between_braces:
  assumes "is_bracket_language v" "\<not> get_has_selection v"
    and "insert_mark v = (i, j)" "i < length (lines v)" "0 < j" "j < length (lines v ! i)"
    and "lines v ! i ! (j - 1) = CHR ''{''" "lines v ! i ! j = CHR ''}''"
    and "\<not> context_class v (i, j - 1) ''comment''" "\<not> context_class v (i, j - 1) ''string''"
    and "tab_char v = SPACE \<or> tab_char v = TAB"
    and "find_start_of_closed_expression v (i, j) = Some s"
  shows "\<exists>v'. on_key_press_event_return v = Handled v' \<and> fst s \<le> i \<and>
           lines v' =
             take i (lines v)
               @ [take j (lines v ! i),
                  leading_whitespace (lines v ! fst s) @ tab v,
                  leading_whitespace (lines v ! fst s) @ drop j (lines v ! i)]
               @ drop (Suc i) (lines v) \<and>
           insert_mark v' = (Suc i, length (leading_whitespace (lines v ! fst s) @ tab v)) \<and>
           selection_bound v' = insert_mark v' \<and>
           undo v' = undo v @ [Begin_user_action,
               Inserted (i, j) (NL # leading_whitespace (lines v ! fst s) @ tab v
                                  @ NL # leading_whitespace (lines v ! fst s)),
               End_user_action]"
proof -
  define b where "b = lines v"
  define l where "l = b ! i"
  define tabs where "tabs = leading_whitespace (b ! fst s)"
  define v1 where "v1 = begin_user_action v"
  have v1: "lines v1 = b" "insert_mark v1 = (i, j)" "selection_bound v1 = (i, j)"
      "undo v1 = undo v @ [Begin_user_action]" "tab v1 = tab v"
      "v1 = v\<lparr>undo := undo v @ [Begin_user_action]\<rparr>"
    using assms(2,3) by (auto simp: v1_def begin_user_action_def b_def get_has_selection_def tab_def)
  have valid: "valid_iter (lines v) (i, j)" using assms(4,6) by (simp add: valid_iter_def)
  have s: "fst s < length b" "fst s \<le> i"
    using find_start_valid [OF valid assms(11,12)] by (simp_all add: b_def)
  have bc: "backward_char b (i, j) = (True, (i, j - 1))"
    using assms(5) by (simp add: backward_char_def)
  have gc: "get_char b (i, j) = CHR ''}''" "get_char b (i, j - 1) = CHR ''{''"
    using assms(5-8) by (simp_all add: get_char_def b_def)
  have el: "\<not> ends_line b (i, j - 1)" using assms(5,6) by (simp add: ends_line_def b_def)
  have te: "tabs_end_forward b (i, j) = (i, j)"
    using gc by (intro tabs_end_forward_stays) simp_all
  have bb: "blank_backward_bracket b (i, j - 1) = (i, j - 1)"
    using gc el by (intro blank_backward_bracket_stays) simp_all
  have fc: "snd (forward_char b (i, j - 1)) = (i, j)"
    using assms(4-6) forward_char_in_line [of i b "j - 1"] by (simp add: b_def)
  have fs: "find_start_of_closed_expression v1 (i, j) = Some s"
    using assms(12) by (simp add: v1(6))
  have tabs: "get_line_before b (get_tabs_end_iter b (get_line s)) = tabs"
    using s(1) by (simp add: get_line_before_tabs_end get_line_def tabs_def)
  have nl: "NL \<notin> set (tabs @ tab v)" "NL \<notin> set tabs"
    using assms(11) leading_whitespace_no_newline [of "b ! fst s"]
    by (auto simp: tabs_def tab_def)
  define ins where "ins = NL # tabs @ tab v @ NL # tabs"
  define v2 where "v2 = insert_at_cursor v1 ins"
  have it: "insert_text b (i, j) ins
      = take i b @ [take j l, tabs @ tab v, tabs @ drop j l] @ drop (Suc i) b"
    "mark_after_insert (i, j) ins (i, j) = (i + 2, length tabs)"
    using insert_blank_line [of i b "tabs @ tab v" tabs j] assms(4) nl
    by (simp_all add: ins_def b_def l_def)
  have v2: "lines v2 = take i b @ [take j l, tabs @ tab v, tabs @ drop j l] @ drop (Suc i) b"
      "insert_mark v2 = (i + 2, length tabs)"
      "undo v2 = undo v @ [Begin_user_action, Inserted (i, j) ins]"
    using it v1 by (simp_all add: v2_def insert_at_cursor_def insert_at_def ins_def)
  have l2: "lines v2 ! (i + 2) = tabs @ drop j l" "lines v2 ! (i + 1) = tabs @ tab v"
    using assms(4) by (simp_all add: v2 nth_append b_def)
  have bs: "backward_steps (lines v2) (length tabs + 1) (i + 2, length tabs)
      = (i + 1, length (tabs @ tab v))"
  proof -
    have "backward_steps (lines v2) (length tabs + 1) (i + 2, length tabs)
        = backward_steps (lines v2) 1
            (backward_steps (lines v2) (length tabs) (i + 2, length tabs))"
      by (rule backward_steps_add)
    also have "\<dots> = backward_steps (lines v2) 1 (i + 2, 0)"
      by (simp add: backward_steps_in_line)
    also have "\<dots> = (i + 1, length (tabs @ tab v))"
      using l2 by (simp add: backward_char_def)
    finally show ?thesis .
  qed
  have bcs: "backward_chars (lines v2) (length tabs + 1) (insert_mark v2)
      = (True, (i + 1, length (tabs @ tab v)))"
    using bs by (simp add: backward_chars_def v2 buffer_begin_def)
  define v3 where "v3 = end_user_action (place_cursor v2 (i + 1, length (tabs @ tab v)))"
  have blr: "bracket_language_return v = Handled v3"
    using bc gc te bb fc fs tabs bcs
    using assms(5)
    by (simp add: bracket_language_return_def Let_def v1_def [symmetric] v1(1-5) starts_line_def
        ins_def [symmetric] v2_def [symmetric] v3_def cong: if_cong)
  have okp: "on_key_press_event_return v = bracket_language_return v"
    using assms(1,2,3,9,10) bc
    by (simp add: on_key_press_event_return_def b_def)
  have "lines v3 = take i b @ [take j l, tabs @ tab v, tabs @ drop j l] @ drop (Suc i) b"
      "insert_mark v3 = (Suc i, length (tabs @ tab v))" "selection_bound v3 = insert_mark v3"
      "undo v3 = undo v @ [Begin_user_action, Inserted (i, j) ins, End_user_action]"
    by (simp_all add: v3_def end_user_action_def place_cursor_def v2)
  then show ?thesis
    using okp blr s(2) unfolding b_def l_def tabs_def ins_def by simp
qed

primrec handled_view :: "handled \<Rightarrow> view option" where
  "handled_view (Handled v) = Some v"
| "handled_view Unmodelled = None"

definition enter_example :: view where
  "enter_example =
     \<lparr>lines = [''  if (x) {}''], insert_mark = (0, 10), selection_bound = (0, 10),
      tab_char = SPACE, tab_size = 2, context_class = (\<lambda>_ _. False),
      is_bracket_language = True, language_id = Some ''cpp'', file_path = ''f'',
      modified = False, undo = []\<rparr>"

definition unbalanced_example :: view where
  "unbalanced_example =
     \<lparr>lines = ['') {}''], insert_mark = (0, 3), selection_bound = (0, 3),
      tab_char = SPACE, tab_size = 2, context_class = (\<lambda>_ _. False),
      is_bracket_language = True, language_id = Some ''cpp'', file_path = ''f'',
      modified = False, undo = []\<rparr>"

text \<open>
  The theorem on the line \<open>if (x) {}\<close>, indented by two spaces, with a tab style of two
  spaces: the statement starts at column 2 of the line, and the three lines are the line up
  to the opening brace, four spaces, and the closing brace behind two spaces.
\<close>

text \<open>
  The theorem on the line \<open>if (x) {}\<close>, indented by two spaces, with a tab style of two
  spaces: the statement starts at column 2 of the line, and the three lines are the line up
  to the opening brace, four spaces, and the closing brace behind two spaces.
\<close>

theorem enter_between_braces_witness:
  "\<exists>v'. on_key_press_event_return enter_example = Handled v' \<and>
        lines v' = [''  if (x) {'', ''    '', ''  }''] \<and> insert_mark v' = (1, 4)"
proof -
  have h: "is_bracket_language enter_example" "\<not> get_has_selection enter_example"
      "insert_mark enter_example = (0, 10)" "0 < length (lines enter_example)" "0 < (10::nat)"
      "10 < length (lines enter_example ! 0)"
      "lines enter_example ! 0 ! (10 - 1) = CHR ''{''" "lines enter_example ! 0 ! 10 = CHR ''}''"
      "\<not> context_class enter_example (0, 10 - 1) ''comment''"
      "\<not> context_class enter_example (0, 10 - 1) ''string''"
      "tab_char enter_example = SPACE \<or> tab_char enter_example = TAB"
    by (simp_all add: enter_example_def get_has_selection_def)
  have f: "find_start_of_closed_expression enter_example (0, 10) = Some (0, 2)"
    by code_simp
  have t: "leading_whitespace (lines enter_example ! fst (0 :: nat, 2 :: nat)) = ''  ''"
      "tab enter_example = ''  ''"
    by code_simp+
  show ?thesis
    using enter_between_braces [OF h f] unfolding t
    by (auto simp: enter_example_def)
qed

text \<open>
  The claim as stated fails where the scan finds no start of a statement: between the
  braces of \<open>) {}\<close> the closing parenthesis is never balanced, the handler falls back to
  the basic policy, and Enter gives two lines.
\<close>

theorem enter_between_braces_counterexample:
  "is_bracket_language unbalanced_example \<and> \<not> get_has_selection unbalanced_example
   \<and> get_char (lines unbalanced_example) (0, 2) = CHR ''{''
   \<and> get_char (lines unbalanced_example) (insert_mark unbalanced_example) = CHR ''}''
   \<and> map_option lines (handled_view (on_key_press_event_return unbalanced_example))
       = Some ['') {'', ''}'']"
  by code_simp

section \<open>Toggling comments\<close>

text \<open>
  The comment characters of a document, chosen in the constructor of \<^verbatim>\<open>Source::View\<close>
  from the language; \<^verbatim>\<open>toggle_comments\<close> is set only where they exist.
\<close>

definition comment_characters :: "view \<Rightarrow> string option" where
  "comment_characters v =
     (if is_bracket_language v then Some ''//''
      else case language_id v of
        None \<Rightarrow> None
      | Some l \<Rightarrow>
          if l = ''cmake'' \<or> l = ''makefile'' \<or> l = ''python'' \<or> l = ''python3'' \<or> l = ''sh'' \<or>
             l = ''perl'' \<or> l = ''ruby'' \<or> l = ''r'' \<or> l = ''asm'' \<or> l = ''automake''
          then Some ''#''
          else if l = ''latex'' \<or> l = ''matlab'' \<or> l = ''octave'' \<or> l = ''bibtex''
          then Some ''%''
          else if l = ''fortran'' then Some ''!''
          else if l = ''pascal'' then Some ''//''
          else if l = ''lua'' then Some ''--''
          else None)"








text \<open>The loop that moves both iterators of the erasure over spaces and tabs.\<close>

function comment_skip :: "buffer \<Rightarrow> iter \<Rightarrow> iter \<Rightarrow> iter \<times> iter" where
  "comment_skip b iter end_iter =
     (if get_char b iter = SPACE \<or> get_char b iter = TAB
      then comment_skip b (snd (forward_char b iter)) (snd (forward_char b end_iter))
      else (iter, end_iter))"
  by pat_completeness auto
termination
  by (relation "measure (\<lambda>(b, it, e). length (b ! fst it) - snd it)")
     (auto simp: forward_char_def get_char_def split: if_splits)

declare comment_skip.simps [simp del]

text \<open>The second loop, over the lines of the list: the edit of one line, and the loop.\<close>

definition toggle_edit_line :: "string \<Rightarrow> bool \<Rightarrow> bool \<Rightarrow> int \<Rightarrow> nat \<Rightarrow> view \<Rightarrow> view" where
  "toggle_edit_line cc lines_commented extra_spaces min_indentation line v =
     (let iter = get_iter_at_line (lines v) line;
          iter = snd (forward_chars (lines v) (nat min_indentation) iter)
      in if lines_commented then
           (let end_iter = snd (forward_chars (lines v)
                                  (length cc + (if extra_spaces then 1 else 0)) iter);
                its = comment_skip (lines v) iter end_iter
            in erase v (fst its) (snd its))
         else insert_at v iter (cc @ [SPACE]))"

primrec toggle_edit :: "string \<Rightarrow> bool \<Rightarrow> bool \<Rightarrow> int \<Rightarrow> nat list \<Rightarrow> view \<Rightarrow> view" where
  "toggle_edit cc lines_commented extra_spaces min_indentation [] v = v"
| "toggle_edit cc lines_commented extra_spaces min_indentation (line # ls) v =
     toggle_edit cc lines_commented extra_spaces min_indentation ls
       (toggle_edit_line cc lines_commented extra_spaces min_indentation line v)"



text \<open>
  The words of the claim about comments: the lines of the selection (without the line a
  selection of several lines ends at the start of), the counted lines (those with a
  character other than a space or a tab), whether a line carries the prefix behind its
  indentation, and whether a space follows the prefix.
\<close>

definition toggle_range :: "view \<Rightarrow> nat list" where
  "toggle_range v =
     (let s = fst (get_selection_bounds v); e = snd (get_selection_bounds v)
      in [fst s ..< Suc (if fst s \<noteq> fst e \<and> snd e = 0 then fst e - 1 else fst e)])"

definition counted :: "string \<Rightarrow> bool" where
  "counted l = (leading_whitespace l \<noteq> l)"

definition indentation :: "string \<Rightarrow> nat" where
  "indentation l = length (leading_whitespace l)"



definition counted_lines :: "view \<Rightarrow> nat list" where
  "counted_lines v = filter (\<lambda>i. counted (lines v ! i)) (toggle_range v)"



definition min_indentation :: "view \<Rightarrow> nat" where
  "min_indentation v = Min (set (map (\<lambda>i. indentation (lines v ! i)) (counted_lines v)))"

























lemma comment_characters_insert_at [simp]:
  "comment_characters (insert_at v p t) = comment_characters v"
  by (simp add: comment_characters_def insert_at_def)

lemma comment_characters_erase [simp]:
  "comment_characters (erase v x y) = comment_characters v"
  by (simp add: comment_characters_def erase_def Let_def)

lemma comment_characters_toggle_edit_line [simp]:
  "comment_characters (toggle_edit_line cc lc es mi i v) = comment_characters v"
  by (simp add: toggle_edit_line_def Let_def)

lemma comment_characters_toggle_edit [simp]:
  "comment_characters (toggle_edit cc lc es mi ls v) = comment_characters v"
  by (induction ls arbitrary: v) simp_all






















section \<open>Detecting the tab style\<close>

text \<open>
  \<^verbatim>\<open>find_tab_char_and_size\<close> walks through the buffer with \<^verbatim>\<open>while(iter)\<close>: an
  iterator converts to true unless it is the end iterator. \<open>iter_bool\<close> is this test; for
  the positions of a buffer it is the negation of \<open>is_end\<close>, and it is the condition
  under which \<^verbatim>\<open>forward_char\<close> moves.
\<close>

definition iter_bool :: "buffer \<Rightarrow> iter \<Rightarrow> bool" where
  "iter_bool b it = (snd it < length (b ! fst it) \<or> Suc (fst it) < length b)"

text \<open>
  The number of steps of \<^verbatim>\<open>forward_char\<close> from a position to the end of the buffer,
  which bounds the loops.
\<close>

definition rest_chars :: "buffer \<Rightarrow> nat \<Rightarrow> nat" where
  "rest_chars b i = sum_list (map (\<lambda>l. Suc (length l)) (drop (Suc i) b))"

definition steps_to_end :: "buffer \<Rightarrow> iter \<Rightarrow> nat" where
  "steps_to_end b it = rest_chars b (fst it) + (length (b ! fst it) - snd it)"

lemma rest_chars_Suc:
  "Suc i < length b \<Longrightarrow> rest_chars b i = Suc (length (b ! Suc i)) + rest_chars b (Suc i)"
  by (simp add: rest_chars_def Cons_nth_drop_Suc [symmetric])

lemma steps_forward_char_le: "steps_to_end b (snd (forward_char b it)) \<le> steps_to_end b it"
  by (auto simp: steps_to_end_def forward_char_def rest_chars_Suc)

lemma steps_forward_char_less:
  "iter_bool b it \<Longrightarrow> steps_to_end b (snd (forward_char b it)) < steps_to_end b it"
  by (auto simp: steps_to_end_def forward_char_def rest_chars_Suc iter_bool_def)

lemma steps_next_line:
  "Suc (fst it) < length b \<Longrightarrow> steps_to_end b (Suc (fst it), 0) < steps_to_end b it"
  by (simp add: steps_to_end_def rest_chars_Suc)

text \<open>
  The two histograms are \<^verbatim>\<open>std::unordered_map\<close>s from a key to a count, and
  \<^verbatim>\<open>map[key]++\<close> is \<open>bump\<close>. The model keeps the entries in the order of their first
  insertion; the order in which the source iterates them is the library's. The local
  variables of the function are the record \<open>tab_scan\<close>; the counters are C \<^verbatim>\<open>long\<close>s,
  unbounded integers in the model.
\<close>

primrec bump :: "'a \<Rightarrow> ('a \<times> nat) list \<Rightarrow> ('a \<times> nat) list" where
  "bump k [] = [(k, 1)]"
| "bump k (e # es) = (if fst e = k then (k, Suc (snd e)) # es else e # bump k es)"

record tab_scan =
  tab_chars :: "(char \<times> nat) list"
  tab_sizes :: "(nat \<times> nat) list"
  tab_count :: int
  last_tab_count :: int
  single_quoted :: bool
  double_quoted :: bool
  line_comment :: bool
  block_comment :: bool
  bracket_last_line :: bool
  last_char :: char
  last_tab_diff :: int
  para_count :: int

definition initial_tab_scan :: tab_scan where
  "initial_tab_scan =
     \<lparr>tab_chars = [], tab_sizes = [], tab_count = - 1, last_tab_count = 0,
      single_quoted = False, double_quoted = False, line_comment = False,
      block_comment = False, bracket_last_line = False, last_char = NUL,
      last_tab_diff = - 1, para_count = 0\<rparr>"

text \<open>The test of both loops on a quote character: it is not behind a single backslash.\<close>

definition not_escaped :: "buffer \<Rightarrow> iter \<Rightarrow> bool" where
  "not_escaped b iter =
     (let prev_iter = snd (backward_char b iter);
          prev_prev_iter = snd (backward_char b prev_iter)
      in \<not> (get_char b prev_iter = BACKSLASH \<and> get_char b prev_prev_iter \<noteq> BACKSLASH))"

text \<open>
  The loop for bracket languages. \<open>last_line_char_loop\<close> is the inner loop over the rest of
  the line; \<open>bracket_indentation\<close> is the block under \<^verbatim>\<open>bracket_last_line\<close>, with the flag
  of its \<^verbatim>\<open>continue\<close>; \<open>bracket_quotes\<close> and \<open>bracket_last_char\<close> are the rest of the
  body, the first of which may move the iterator behind the end of a comment.
\<close>

function last_line_char_loop :: "buffer \<Rightarrow> iter \<Rightarrow> char \<Rightarrow> char" where
  "last_line_char_loop b line_iter last_line_char =
     (if iter_bool b line_iter \<and> \<not> ends_line b line_iter then
        (let last_line_char =
               (if get_char b line_iter \<noteq> SPACE \<and> get_char b line_iter \<noteq> TAB
                then get_char b line_iter else last_line_char)
         in if get_char b line_iter = CHR ''(''
            then last_line_char
            else last_line_char_loop b (snd (forward_char b line_iter)) last_line_char)
      else last_line_char)"
  by pat_completeness auto
termination
  by (relation "measure (\<lambda>(b, it, c). steps_to_end b it)")
     (auto simp: steps_forward_char_less)

declare last_line_char_loop.simps [simp del]

definition bracket_line_start :: "iter \<Rightarrow> tab_scan \<Rightarrow> tab_scan" where
  "bracket_line_start iter st =
     (if starts_line iter
      then st\<lparr>line_comment := False, single_quoted := False, double_quoted := False,
              tab_count := 0, bracket_last_line := (last_char st = CHR ''{'')\<rparr>
      else st)"

definition bracket_indentation :: "buffer \<Rightarrow> iter \<Rightarrow> tab_scan \<Rightarrow> bool \<times> tab_scan" where
  "bracket_indentation b iter st =
     (if bracket_last_line st \<and> tab_count st \<noteq> - 1 then
        (if get_char b iter = SPACE
         then (False, st\<lparr>tab_chars := bump SPACE (tab_chars st), tab_count := tab_count st + 1\<rparr>)
         else if get_char b iter = TAB
         then (False, st\<lparr>tab_chars := bump TAB (tab_chars st), tab_count := tab_count st + 1\<rparr>)
         else if last_line_char_loop b iter NUL = CHR '':'' \<or> get_char b iter = CHR ''#''
         then (Suc (get_line iter) < get_line_count b, st\<lparr>tab_count := 0\<rparr>)
         else if \<not> ends_line b iter
         then (False,
               st\<lparr>tab_sizes := (if tab_count st \<noteq> last_tab_count st
                                  then bump (nat \<bar>tab_count st - last_tab_count st\<bar>) (tab_sizes st)
                                  else tab_sizes st),
                  last_tab_diff := \<bar>tab_count st - last_tab_count st\<bar>,
                  last_tab_count := tab_count st,
                  last_char := NUL\<rparr>)
         else (False, st))
      else (False, st))"

definition bracket_quotes :: "buffer \<Rightarrow> iter \<Rightarrow> tab_scan \<Rightarrow> iter \<times> tab_scan" where
  "bracket_quotes b iter st =
     (if \<not> double_quoted st \<and> get_char b iter = QUOTE \<and> not_escaped b iter
      then (iter, st\<lparr>single_quoted := \<not> single_quoted st\<rparr>)
      else if \<not> single_quoted st \<and> get_char b iter = DQUOTE \<and> not_escaped b iter
      then (iter, st\<lparr>double_quoted := \<not> double_quoted st\<rparr>)
      else if \<not> single_quoted st \<and> \<not> double_quoted st then
        (let next_iter = snd (forward_char b iter)
         in if get_char b iter = CHR ''/'' \<and> get_char b next_iter = CHR ''/''
            then (iter, st\<lparr>line_comment := True\<rparr>)
            else if get_char b iter = CHR ''/'' \<and> get_char b next_iter = CHR ''*''
            then (iter, st\<lparr>block_comment := True\<rparr>)
            else if get_char b iter = CHR ''*'' \<and> get_char b next_iter = CHR ''/''
            then (snd (forward_char b (snd (forward_char b iter))), st\<lparr>block_comment := False\<rparr>)
            else (iter, st))
      else (iter, st))"

definition bracket_last_char :: "buffer \<Rightarrow> iter \<Rightarrow> tab_scan \<Rightarrow> tab_scan" where
  "bracket_last_char b iter st =
     (let code = (\<not> single_quoted st \<and> \<not> double_quoted st \<and> \<not> block_comment st \<and>
                  \<not> line_comment st);
          st = (if code \<and> get_char b iter \<noteq> SPACE \<and> get_char b iter \<noteq> TAB \<and> \<not> ends_line b iter
                then st\<lparr>last_char := get_char b iter\<rparr> else st);
          st = (if code \<and> get_char b iter = CHR ''}'' \<and> tab_count st \<noteq> - 1 \<and>
                   last_tab_diff st \<noteq> - 1
                then st\<lparr>last_tab_count := last_tab_count st - last_tab_diff st\<rparr> else st)
      in if get_char b iter \<noteq> SPACE \<and> get_char b iter \<noteq> TAB
         then st\<lparr>tab_count := - 1\<rparr> else st)"

lemma steps_bracket_quotes:
  "steps_to_end b (fst (bracket_quotes b iter st)) \<le> steps_to_end b iter"
  using steps_forward_char_le [of b "snd (forward_char b iter)"] steps_forward_char_le [of b iter]
  by (auto simp: bracket_quotes_def Let_def)

function bracket_loop :: "buffer \<Rightarrow> iter \<Rightarrow> tab_scan \<Rightarrow> tab_scan" where
  "bracket_loop b iter st =
     (if iter_bool b iter then
        (if fst (bracket_indentation b iter (bracket_line_start iter st))
         then bracket_loop b (get_iter_at_line b (Suc (get_line iter)))
                (snd (bracket_indentation b iter (bracket_line_start iter st)))
         else bracket_loop b
                (snd (forward_char b
                   (fst (bracket_quotes b iter
                      (snd (bracket_indentation b iter (bracket_line_start iter st)))))))
                (bracket_last_char b
                   (fst (bracket_quotes b iter
                      (snd (bracket_indentation b iter (bracket_line_start iter st)))))
                   (snd (bracket_quotes b iter
                      (snd (bracket_indentation b iter (bracket_line_start iter st)))))))
      else st)"
  by pat_completeness auto
termination
proof (relation "measure (\<lambda>(b, it, st). steps_to_end b it)", goal_cases)
  case 1
  show ?case by simp
next
  case (2 b iter st)
  then have "Suc (fst iter) < length b"
    by (auto simp: bracket_indentation_def get_line_def get_line_count_def split: if_splits)
  then show ?case
    using steps_next_line [of iter b] by (simp add: get_iter_at_line_def get_line_def)
next
  case (3 b iter st)
  define q where "q = fst (bracket_quotes b iter
      (snd (bracket_indentation b iter (bracket_line_start iter st))))"
  have le: "steps_to_end b q \<le> steps_to_end b iter" unfolding q_def by (rule steps_bracket_quotes)
  have "steps_to_end b (snd (forward_char b q)) < steps_to_end b iter"
  proof (cases "q = iter")
    case True
    then show ?thesis using 3(1) steps_forward_char_less [of b iter] by simp
  next
    case False
    then have "q = snd (forward_char b (snd (forward_char b iter)))"
      unfolding q_def by (auto simp: bracket_quotes_def Let_def split: if_splits)
    then have "steps_to_end b q \<le> steps_to_end b (snd (forward_char b iter))"
      using steps_forward_char_le [of b "snd (forward_char b iter)"] by simp
    then have "steps_to_end b q < steps_to_end b iter"
      using 3(1) steps_forward_char_less [of b iter] by simp
    then show ?thesis using steps_forward_char_le [of b q] by simp
  qed
  then show ?case by (simp add: q_def)
qed

declare bracket_loop.simps [simp del]

text \<open>The loop for the other languages.\<close>

definition plain_indentation :: "buffer \<Rightarrow> iter \<Rightarrow> tab_scan \<Rightarrow> tab_scan" where
  "plain_indentation b iter st =
     (if tab_count st \<noteq> - 1 \<and> para_count st = 0 \<and> \<not> single_quoted st \<and> \<not> double_quoted st then
        (if get_char b iter = SPACE
         then st\<lparr>tab_chars := bump SPACE (tab_chars st), tab_count := tab_count st + 1\<rparr>
         else if get_char b iter = TAB
         then st\<lparr>tab_chars := bump TAB (tab_chars st), tab_count := tab_count st + 1\<rparr>
         else if \<not> ends_line b iter
         then st\<lparr>tab_sizes := (if tab_count st \<noteq> last_tab_count st
                                then bump (nat \<bar>tab_count st - last_tab_count st\<bar>) (tab_sizes st)
                                else tab_sizes st),
                  last_tab_count := tab_count st\<rparr>
         else st)
      else st)"

definition plain_quotes :: "buffer \<Rightarrow> iter \<Rightarrow> tab_scan \<Rightarrow> tab_scan" where
  "plain_quotes b iter st =
     (let st =
        (if \<not> double_quoted st \<and> get_char b iter = QUOTE \<and> not_escaped b iter
         then st\<lparr>single_quoted := \<not> single_quoted st\<rparr>
         else if \<not> single_quoted st \<and> get_char b iter = DQUOTE \<and> not_escaped b iter
         then st\<lparr>double_quoted := \<not> double_quoted st\<rparr>
         else if \<not> single_quoted st \<and> \<not> double_quoted st then
           (if get_char b iter = CHR ''('' then st\<lparr>para_count := para_count st + 1\<rparr>
            else if get_char b iter = CHR '')'' then st\<lparr>para_count := para_count st - 1\<rparr>
            else st)
         else st)
      in if get_char b iter \<noteq> SPACE \<and> get_char b iter \<noteq> TAB
         then st\<lparr>tab_count := - 1\<rparr> else st)"

definition plain_step :: "buffer \<Rightarrow> iter \<Rightarrow> tab_scan \<Rightarrow> tab_scan" where
  "plain_step b iter st =
     plain_quotes b iter
       (plain_indentation b iter (if starts_line iter then st\<lparr>tab_count := 0\<rparr> else st))"

function plain_loop :: "buffer \<Rightarrow> iter \<Rightarrow> tab_scan \<Rightarrow> tab_scan" where
  "plain_loop b iter st =
     (if iter_bool b iter
      then plain_loop b (snd (forward_char b iter)) (plain_step b iter st)
      else st)"
  by pat_completeness auto
termination
  by (relation "measure (\<lambda>(b, it, st). steps_to_end b it)")
     (auto simp: steps_forward_char_less)

declare plain_loop.simps [simp del]

text \<open>
  The two loops at the end of the function select from each histogram: an entry replaces
  the one found so far if its count is greater.
\<close>

primrec most_frequent_loop :: "('a \<times> nat) list \<Rightarrow> 'a \<times> nat \<Rightarrow> 'a \<times> nat" where
  "most_frequent_loop [] found = found"
| "most_frequent_loop (e # es) found =
     most_frequent_loop es (if snd e > snd found then e else found)"

definition most_frequent :: "'a \<Rightarrow> ('a \<times> nat) list \<Rightarrow> 'a" where
  "most_frequent none es = fst (most_frequent_loop es (none, 0))"

text \<open>
  \<open>tab_histograms\<close> is the state of \<^verbatim>\<open>find_tab_char_and_size\<close> behind its loop over
  the buffer, which depends on the language; the function returns the two selections.
\<close>

definition tab_histograms :: "view \<Rightarrow> tab_scan" where
  "tab_histograms v =
     (if is_bracket_language v \<and> language_id v \<noteq> Some ''html''
      then bracket_loop (lines v) buffer_begin initial_tab_scan
      else plain_loop (lines v) buffer_begin initial_tab_scan)"

definition find_tab_char_and_size :: "view \<Rightarrow> char \<times> nat" where
  "find_tab_char_and_size v =
     (most_frequent NUL (tab_chars (tab_histograms v)),
      most_frequent 0 (tab_sizes (tab_histograms v)))"

text \<open>
  The caller, the constructor of \<^verbatim>\<open>Source::View\<close>: it starts from the configured tab
  character and size and replaces both by the result of the detection if the option is
  set and the character found is not 0.
\<close>

definition set_tab_char_and_size :: "view \<Rightarrow> char \<Rightarrow> nat \<Rightarrow> view" where
  "set_tab_char_and_size v c n = v\<lparr>tab_char := c, tab_size := n\<rparr>"

definition init_tab_char_and_size :: "config \<Rightarrow> view \<Rightarrow> view" where
  "init_tab_char_and_size cfg v =
     (if auto_tab_char_and_size cfg \<and> fst (find_tab_char_and_size v) \<noteq> NUL
      then set_tab_char_and_size v (fst (find_tab_char_and_size v))
             (snd (find_tab_char_and_size v))
      else set_tab_char_and_size v (default_tab_char cfg) (default_tab_size cfg))"

lemma iter_bool_not_end:
  assumes "valid_iter b it"
  shows "iter_bool b it = (\<not> is_end b it)"
proof (cases "Suc (fst it) < length b")
  case True
  then show ?thesis by (auto simp: iter_bool_def is_end_def buffer_end_def)
next
  case False
  then have "fst it = length b - 1" "b \<noteq> []" using assms by (auto simp: valid_iter_def)
  then have "last b = b ! fst it" by (simp add: last_conv_nth)
  then show ?thesis
    using assms False \<open>fst it = length b - 1\<close>
    by (cases it) (auto simp: iter_bool_def is_end_def buffer_end_def valid_iter_def)
qed

text \<open>
  What the detection guarantees: every count of the two histograms is positive and the
  characters counted are spaces and tabs; the selection returns a key whose count is the
  greatest, whatever the order of the entries, and the given default for an empty
  histogram.
\<close>

definition histograms_ok :: "tab_scan \<Rightarrow> bool" where
  "histograms_ok st =
     ((\<forall>e\<in>set (tab_chars st). 0 < snd e \<and> (fst e = SPACE \<or> fst e = TAB)) \<and>
      (\<forall>e\<in>set (tab_sizes st). 0 < snd e))"

lemma set_bump: "e \<in> set (bump k m) \<Longrightarrow> (fst e = k \<and> 0 < snd e) \<or> e \<in> set m"
  by (induction m) (auto split: if_splits)

lemma histograms_ok_initial: "histograms_ok initial_tab_scan"
  by (simp add: histograms_ok_def initial_tab_scan_def)

lemma histograms_ok_bracket_line_start:
  "histograms_ok st \<Longrightarrow> histograms_ok (bracket_line_start iter st)"
  by (simp add: histograms_ok_def bracket_line_start_def)

lemma histograms_ok_bracket_indentation:
  "histograms_ok st \<Longrightarrow> histograms_ok (snd (bracket_indentation b iter st))"
  unfolding histograms_ok_def bracket_indentation_def
  by (auto dest: set_bump)

lemma histograms_bracket_quotes:
  "tab_chars (snd (bracket_quotes b iter st)) = tab_chars st"
  "tab_sizes (snd (bracket_quotes b iter st)) = tab_sizes st"
  by (simp_all add: bracket_quotes_def Let_def)

lemma histograms_bracket_last_char:
  "tab_chars (bracket_last_char b iter st) = tab_chars st"
  "tab_sizes (bracket_last_char b iter st) = tab_sizes st"
  by (simp_all add: bracket_last_char_def Let_def)

lemma histograms_ok_bracket_loop:
  "histograms_ok st \<Longrightarrow> histograms_ok (bracket_loop b iter st)"
proof (induction b iter st rule: bracket_loop.induct)
  case (1 b iter st)
  define r where "r = bracket_indentation b iter (bracket_line_start iter st)"
  define q where "q = bracket_quotes b iter (snd r)"
  have r: "histograms_ok (snd r)"
    unfolding r_def using "1.prems"
    by (intro histograms_ok_bracket_indentation histograms_ok_bracket_line_start)
  then have q: "histograms_ok (bracket_last_char b (fst q) (snd q))"
    by (simp add: histograms_ok_def histograms_bracket_last_char q_def histograms_bracket_quotes)
  show ?case
  proof (cases "iter_bool b iter")
    case False
    then show ?thesis using "1.prems" by (subst bracket_loop.simps) simp
  next
    case True
    show ?thesis
    proof (cases "fst r")
      case c: True
      then show ?thesis
        using True r "1.IH"(1) [OF True] 
        by (subst bracket_loop.simps) (simp add: r_def)
    next
      case nc: False
      then show ?thesis
        using True q "1.IH"(2) [OF True]
        by (subst bracket_loop.simps) (simp add: r_def q_def)
    qed
  qed
qed

lemma histograms_ok_plain_step:
  "histograms_ok st \<Longrightarrow> histograms_ok (plain_step b iter st)"
proof -
  have q: "tab_chars (plain_quotes b iter s) = tab_chars s"
      "tab_sizes (plain_quotes b iter s) = tab_sizes s" for s
    by (simp_all add: plain_quotes_def Let_def)
  have i: "histograms_ok s \<Longrightarrow> histograms_ok (plain_indentation b iter s)" for s
    unfolding histograms_ok_def plain_indentation_def by (auto dest: set_bump)
  assume "histograms_ok st"
  then have "histograms_ok (if starts_line iter then st\<lparr>tab_count := 0\<rparr> else st)"
    by (simp add: histograms_ok_def)
  then have "histograms_ok (plain_indentation b iter
      (if starts_line iter then st\<lparr>tab_count := 0\<rparr> else st))" by (rule i)
  then show ?thesis by (simp add: plain_step_def histograms_ok_def q)
qed

lemma histograms_ok_plain_loop:
  "histograms_ok st \<Longrightarrow> histograms_ok (plain_loop b iter st)"
proof (induction b iter st rule: plain_loop.induct)
  case (1 b iter st)
  show ?case
  proof (cases "iter_bool b iter")
    case False
    then show ?thesis using "1.prems" by (subst plain_loop.simps) simp
  next
    case True
    then show ?thesis
      using "1.IH" [OF True] histograms_ok_plain_step [OF "1.prems"]
      by (subst plain_loop.simps) simp
  qed
qed

lemma histograms_ok_tab_histograms: "histograms_ok (tab_histograms v)"
  by (simp add: tab_histograms_def histograms_ok_bracket_loop histograms_ok_plain_loop
      histograms_ok_initial)

lemma most_frequent_loop_max:
  "snd (most_frequent_loop es found) = Max (insert (snd found) (snd ` set es)) \<and>
   most_frequent_loop es found \<in> insert found (set es)"
proof (induction es arbitrary: found)
  case Nil
  then show ?case by simp
next
  case (Cons e es)
  have m: "Max (insert (snd found) (snd ` set (e # es))) =
      Max (insert (max (snd e) (snd found)) (snd ` set es))"
  proof (cases "set es = {}")
    case True
    then show ?thesis by (simp add: max.commute)
  next
    case False
    then show ?thesis by (simp add: max.assoc max.left_commute max.commute)
  qed
  show ?case
  proof (cases "snd e > snd found")
    case True
    then show ?thesis using Cons.IH [of e] m by (auto simp: max_def)
  next
    case False
    then show ?thesis using Cons.IH [of found] m by (auto simp: max_def)
  qed
qed

lemma most_frequent_Nil: "most_frequent none [] = none"
  by (simp add: most_frequent_def)

lemma most_frequent_max:
  assumes "es \<noteq> []" "\<forall>e\<in>set es. 0 < snd e"
  shows "(most_frequent none es, Max (snd ` set es)) \<in> set es"
proof -
  define r where "r = most_frequent_loop es (none, 0)"
  have s: "snd r = Max (insert 0 (snd ` set es))" and i: "r \<in> insert (none, 0) (set es)"
    using most_frequent_loop_max [of es "(none, 0)"] by (simp_all add: r_def)
  obtain e where e: "e \<in> set es" using assms(1) by (cases es) auto
  have "Max (insert 0 (snd ` set es)) = max 0 (Max (snd ` set es))"
    using e by (intro Max_insert) auto
  then have "Max (insert 0 (snd ` set es)) = Max (snd ` set es)" by simp
  moreover have "snd e \<le> Max (snd ` set es)" using e by simp
  ultimately have "0 < snd r" using s assms(2) e by (metis gr0I leD)
  then have "r \<in> set es" using i by auto
  then show ?thesis
    using s \<open>Max (insert 0 (snd ` set es)) = Max (snd ` set es)\<close>
    by (simp add: most_frequent_def r_def [symmetric]) (metis prod.collapse)
qed

text \<open>
  The detection returns a space or a tab whose count is the greatest if a character was
  counted, and 0 if none was; it returns a recorded width whose count is the greatest if
  a width was recorded, and the width 0 if none was. The caller keeps the configured tab
  character and size if the character returned is 0. The same holds for every order in
  which the entries of the histograms are visited (\<open>most_frequent_max\<close>).
\<close>

lemma find_tab_char_and_size_most_frequent:
  "(tab_chars (tab_histograms v) \<noteq> [] \<longrightarrow>
      (fst (find_tab_char_and_size v) = SPACE \<or> fst (find_tab_char_and_size v) = TAB) \<and>
      (fst (find_tab_char_and_size v), Max (snd ` set (tab_chars (tab_histograms v))))
        \<in> set (tab_chars (tab_histograms v))) \<and>
   (tab_chars (tab_histograms v) = [] \<longrightarrow> fst (find_tab_char_and_size v) = NUL) \<and>
   (tab_sizes (tab_histograms v) \<noteq> [] \<longrightarrow>
      (snd (find_tab_char_and_size v), Max (snd ` set (tab_sizes (tab_histograms v))))
        \<in> set (tab_sizes (tab_histograms v))) \<and>
   (tab_sizes (tab_histograms v) = [] \<longrightarrow> snd (find_tab_char_and_size v) = 0) \<and>
   (fst (find_tab_char_and_size v) = NUL \<longrightarrow>
      tab_char (init_tab_char_and_size cfg v) = default_tab_char cfg \<and>
      tab_size (init_tab_char_and_size cfg v) = default_tab_size cfg)"
proof -
  note ok = histograms_ok_tab_histograms [of v, unfolded histograms_ok_def]
  have c: "(fst (find_tab_char_and_size v), Max (snd ` set (tab_chars (tab_histograms v))))
        \<in> set (tab_chars (tab_histograms v))" if "tab_chars (tab_histograms v) \<noteq> []"
    using most_frequent_max [OF that, of NUL] ok by (simp add: find_tab_char_and_size_def)
  have c2: "fst (find_tab_char_and_size v) = SPACE \<or> fst (find_tab_char_and_size v) = TAB"
    if "tab_chars (tab_histograms v) \<noteq> []"
    using c [OF that] ok by fastforce
  have s: "(snd (find_tab_char_and_size v), Max (snd ` set (tab_sizes (tab_histograms v))))
        \<in> set (tab_sizes (tab_histograms v))" if "tab_sizes (tab_histograms v) \<noteq> []"
    using most_frequent_max [OF that, of 0] ok by (simp add: find_tab_char_and_size_def)
  have n: "fst (find_tab_char_and_size v) = NUL" if "tab_chars (tab_histograms v) = []"
    using that by (simp add: find_tab_char_and_size_def most_frequent_Nil)
  have n2: "snd (find_tab_char_and_size v) = 0" if "tab_sizes (tab_histograms v) = []"
    using that by (simp add: find_tab_char_and_size_def most_frequent_Nil)
  have d: "tab_char (init_tab_char_and_size cfg v) = default_tab_char cfg \<and>
      tab_size (init_tab_char_and_size cfg v) = default_tab_size cfg"
    if "fst (find_tab_char_and_size v) = NUL"
    using that by (simp add: init_tab_char_and_size_def set_tab_char_and_size_def)
  show ?thesis using c c2 s n n2 d by blast
qed

definition example_config :: config where
  "example_config =
     \<lparr>default_tab_char = TAB, default_tab_size = 4, auto_tab_char_and_size = True,
      tab_indents_line = True, cleanup_whitespace_characters_option = False\<rparr>"

definition no_delta_example :: view where
  "no_delta_example =
     \<lparr>lines = [''{'', ''  ''], insert_mark = (0, 0), selection_bound = (0, 0),
      tab_char = TAB, tab_size = 4, context_class = (\<lambda>_ _. False),
      is_bracket_language = True, language_id = None, file_path = ''f'', modified = False,
      undo = []\<rparr>"

text \<open>
  The detection on three documents: a block indented by one tab, blocks indented by four
  spaces, and a document without indentation.
\<close>

lemma find_tab_char_and_size_examples:
  "find_tab_char_and_size (no_delta_example\<lparr>lines := [''if (x) {'', TAB # ''foo();'', ''}'']\<rparr>)
     = (TAB, 1) \<and>
   find_tab_char_and_size
     (no_delta_example\<lparr>lines := [''void f() {'', ''    if (x) {'', ''        foo();'',
                                   ''    }'', ''}'']\<rparr>) = (SPACE, 4) \<and>
   find_tab_char_and_size (no_delta_example\<lparr>lines := [''int x;'', ''int y;'']\<rparr>) = (NUL, 0)"
  by code_simp

text \<open>
  C3. The detection does not always return a recorded width or the character 0. In the
  bracket-language document of the two lines \<open>{\<close> and two spaces, the two spaces behind
  the brace are counted, and no width is recorded, because the line has no other
  character: the histogram of the characters has one entry, the histogram of the widths
  is empty. \<^verbatim>\<open>find_tab_char_and_size\<close> returns the space with the width 0. The
  constructor tests only the character against 0, so it takes the result and sets the tab
  size of the view to 0, in place of the configured size 4.
\<close>

theorem find_tab_char_and_size_no_delta:
  "tab_chars (tab_histograms no_delta_example) = [(SPACE, 2)] \<and>
   tab_sizes (tab_histograms no_delta_example) = [] \<and>
   find_tab_char_and_size no_delta_example = (SPACE, 0) \<and>
   default_tab_size example_config = 4 \<and>
   tab_char (init_tab_char_and_size example_config no_delta_example) = SPACE \<and>
   tab_size (init_tab_char_and_size example_config no_delta_example) = 0"
  by code_simp

text \<open>
  The same happens in a class whose only line behind its brace is a label: the line ends
  in a colon and records no width.
\<close>

lemma find_tab_char_and_size_label_example:
  "find_tab_char_and_size
     (no_delta_example\<lparr>lines := [''class A {'', ''  public:'', ''};'']\<rparr>) = (SPACE, 0)"
  by code_simp

end
